theory Spec2Isabelle
  imports Complex_Main "HOL-Library.AList" "HOL-Library.Sublist" "HOL-Library.Extended_Nat"
begin

section \<open>Iterator states\<close>

text \<open>The six state identifiers of \<^verbatim>\<open>asynciterator.ts\<close>, \<^verbatim>\<open>1 << 0\<close> up to \<^verbatim>\<open>1 << 5\<close>.\<close>

definition INIT :: nat where "INIT = 2 ^ 0"
definition OPEN :: nat where "OPEN = 2 ^ 1"
definition CLOSING :: nat where "CLOSING = 2 ^ 2"
definition CLOSED :: nat where "CLOSED = 2 ^ 3"
definition ENDED :: nat where "ENDED = 2 ^ 4"
definition DESTROYED :: nat where "DESTROYED = 2 ^ 5"

lemmas state_defs = INIT_def OPEN_def CLOSING_def CLOSED_def ENDED_def DESTROYED_def

section \<open>The event bus\<close>

text \<open>
  Events an iterator emits. \<^verbatim>\<open>EventEmitter\<close> comes from the runtime's \<^verbatim>\<open>events\<close>
  module; it is modelled as a table from event names to ordered listener lists.
  Errors are \<^verbatim>\<open>Error\<close> objects, identified by their message. As in that module,
  emitting \<^verbatim>\<open>error\<close> while no listener for it is attached throws the error.
\<close>

datatype 'a event = End | Readable | Data 'a | Error string | NewListener string

fun event_name :: "'a event \<Rightarrow> string" where
  "event_name End = ''end''"
| "event_name Readable = ''readable''"
| "event_name (Data x) = ''data''"
| "event_name (Error e) = ''error''"
| "event_name (NewListener n) = ''newListener''"

text \<open>
  Listeners: the module-level handlers of the source, its closures (with the objects
  they capture, given by their numbers), and listeners attached from outside, identified
  by a number. \<open>InsertEnd t p\<close> is the function \<^verbatim>\<open>end\<close> inside \<^verbatim>\<open>_insert\<close> of
  transform \<open>t\<close>, whose \<open>done\<close> belongs to \<^verbatim>\<open>_begin\<close> or to \<^verbatim>\<open>_flush\<close>.
\<close>

datatype phase = Begin bool | Flush

datatype listener =
    WaitForDataListener
  | EmitData
  | DestinationCloseWhenDone
  | DestinationFillBuffer
  | DestinationEmitError
  | InsertPush nat
  | InsertEnd nat phase
  | HistorySetReadable nat
  | HistoryEmitError nat
  | HistoryEnd nat
  | External nat

text \<open>
  Deferred work handed to \<^verbatim>\<open>queueMicrotask\<close>: one constructor per closure of the
  source. Property callbacks are identified by a number.
\<close>

datatype 'v task =
    TEmitEnd
  | TEnd
  | TEmitReadable
  | TCallback nat string
  | TCallbacks "nat list" 'v
  | TCallbacksNotIterable
  | TInit bool
  | TFillBuffer
  | TEmitData
  | TNext nat

section \<open>AsyncIterator\<close>

record ('a, 'v) async_iterator =
  state :: nat
  readable_flag :: bool
  events :: "string \<Rightarrow> listener list"
  properties :: "(string \<times> 'v) list option"
  propertyCallbacks :: "(string \<times> nat list) list option"
  emitted :: "'a event list"
  called :: "(nat \<times> 'v option) list"
  microtasks :: "'v task list"

text \<open>
  \<^verbatim>\<open>emit\<close> of an event that reaches its listeners: the emission is recorded in order
  of occurrence. \<open>emit_error\<close> is \<^verbatim>\<open>emit('error', e)\<close>: without a listener for
  \<^verbatim>\<open>error\<close>, it throws \<open>e\<close> and nothing is recorded.
\<close>

definition emit :: "'a event \<Rightarrow> ('a, 'v, 'z) async_iterator_scheme \<Rightarrow> ('a, 'v, 'z) async_iterator_scheme" where
  "emit ev it = it\<lparr>emitted := emitted it @ [ev]\<rparr>"

definition emit_error :: "string \<Rightarrow> ('a, 'v, 'z) async_iterator_scheme \<Rightarrow> string + ('a, 'v, 'z) async_iterator_scheme" where
  "emit_error e it = (if events it ''error'' = [] then Inl e else Inr (emit (Error e) it))"

definition queueMicrotask :: "'v task \<Rightarrow> ('a, 'v, 'z) async_iterator_scheme \<Rightarrow> ('a, 'v, 'z) async_iterator_scheme" where
  "queueMicrotask t it = it\<lparr>microtasks := microtasks it @ [t]\<rparr>"

definition removeAllListeners :: "string \<Rightarrow> ('a, 'v, 'z) async_iterator_scheme \<Rightarrow> ('a, 'v, 'z) async_iterator_scheme" where
  "removeAllListeners n it = it\<lparr>events := (events it)(n := [])\<rparr>"

text \<open>\<^verbatim>\<open>_changeState(newState, eventAsync)\<close>, returning whether the state changed.\<close>

definition changeState :: "nat \<Rightarrow> bool \<Rightarrow> ('a, 'v, 'z) async_iterator_scheme \<Rightarrow> bool \<times> ('a, 'v, 'z) async_iterator_scheme" where
  "changeState newState eventAsync it =
     (let valid = (newState > state it \<and> state it < ENDED) in
      if valid then
        (let it1 = it\<lparr>state := newState\<rparr> in
         if newState = ENDED then
           (if \<not> eventAsync then (valid, emit End it1)
            else (valid, queueMicrotask TEmitEnd it1))
         else (valid, it1))
      else (valid, it))"

definition is_closed :: "('a, 'v, 'z) async_iterator_scheme \<Rightarrow> bool" where
  "is_closed it = (state it \<ge> CLOSING)"

definition ended :: "('a, 'v, 'z) async_iterator_scheme \<Rightarrow> bool" where
  "ended it = (state it = ENDED)"

definition destroyed :: "('a, 'v, 'z) async_iterator_scheme \<Rightarrow> bool" where
  "destroyed it = (state it = DESTROYED)"

definition is_done :: "('a, 'v, 'z) async_iterator_scheme \<Rightarrow> bool" where
  "is_done it = (state it \<ge> ENDED)"

text \<open>\<^verbatim>\<open>_end(destroy)\<close> and \<^verbatim>\<open>_endAsync()\<close>.\<close>

definition end_it :: "bool \<Rightarrow> ('a, 'v, 'z) async_iterator_scheme \<Rightarrow> ('a, 'v, 'z) async_iterator_scheme" where
  "end_it destroy it =
     (case changeState (if destroy then DESTROYED else ENDED) False it of
        (True, it1) \<Rightarrow>
          removeAllListeners ''end'' (removeAllListeners ''data''
            (removeAllListeners ''readable'' (it1\<lparr>readable_flag := False\<rparr>)))
      | (False, it1) \<Rightarrow> it1)"

definition endAsync :: "('a, 'v, 'z) async_iterator_scheme \<Rightarrow> ('a, 'v, 'z) async_iterator_scheme" where
  "endAsync it = queueMicrotask TEnd it"

text \<open>\<^verbatim>\<open>close()\<close> of the base class.\<close>

definition close :: "('a, 'v, 'z) async_iterator_scheme \<Rightarrow> ('a, 'v, 'z) async_iterator_scheme" where
  "close it = (case changeState CLOSED False it of
                 (True, it1) \<Rightarrow> endAsync it1
               | (False, it1) \<Rightarrow> it1)"

text \<open>
  \<^verbatim>\<open>destroy(cause)\<close>. The overridable \<^verbatim>\<open>_destroy(cause, callback)\<close> is a parameter:
  it updates the iterator and says whether it invoked the callback and with which
  error (\<open>Some None\<close>: invoked without error; \<open>None\<close>: not invoked).
  \<open>destroy_callback\<close> is the arrow function passed as the callback; it throws
  (\<open>Inl\<close>) when its \<^verbatim>\<open>emit('error', cause)\<close> does, before \<^verbatim>\<open>_end(true)\<close> is reached.
\<close>

definition destroy_callback :: "string option \<Rightarrow> string option \<Rightarrow> ('a, 'v, 'z) async_iterator_scheme \<Rightarrow> string + ('a, 'v, 'z) async_iterator_scheme" where
  "destroy_callback cause error it =
     (let cause1 = (case cause of Some c \<Rightarrow> Some c | None \<Rightarrow> error) in
      case cause1 of
        Some c \<Rightarrow> (case emit_error c it of Inl e \<Rightarrow> Inl e | Inr it1 \<Rightarrow> Inr (end_it True it1))
      | None \<Rightarrow> Inr (end_it True it))"

definition destroy :: "(string option \<Rightarrow> ('a, 'v, 'z) async_iterator_scheme \<Rightarrow> ('a, 'v, 'z) async_iterator_scheme \<times> string option option)
     \<Rightarrow> string option \<Rightarrow> ('a, 'v, 'z) async_iterator_scheme \<Rightarrow> string + ('a, 'v, 'z) async_iterator_scheme" where
  "destroy destroy_hook cause it =
     (if \<not> is_done it then
        (case destroy_hook cause it of
           (it1, Some error) \<Rightarrow> destroy_callback cause error it1
         | (it1, None) \<Rightarrow> Inr it1)
      else Inr it)"

text \<open>\<^verbatim>\<open>_destroy\<close> of the base class: calls back at once, without error.\<close>

definition base_destroy :: "string option \<Rightarrow> ('a, 'v, 'z) async_iterator_scheme \<Rightarrow> ('a, 'v, 'z) async_iterator_scheme \<times> string option option" where
  "base_destroy cause it = (it, Some None)"

text \<open>The setter of \<^verbatim>\<open>readable\<close>.\<close>

definition set_readable :: "bool \<Rightarrow> ('a, 'v, 'z) async_iterator_scheme \<Rightarrow> ('a, 'v, 'z) async_iterator_scheme" where
  "set_readable r it =
     (let readable = (r \<and> \<not> is_done it) in
      if readable_flag it \<noteq> readable then
        (let it1 = it\<lparr>readable_flag := readable\<rparr> in
         if readable then queueMicrotask TEmitReadable it1 else it1)
      else it)"


text \<open>
  \<^verbatim>\<open>on(name, listener)\<close> for a listener from outside, numbered \<open>l\<close>, and one of the
  events \<^verbatim>\<open>end\<close>, \<^verbatim>\<open>readable\<close> and \<^verbatim>\<open>error\<close>. As long as \<^verbatim>\<open>newListener\<close> has
  listeners, \<^verbatim>\<open>newListener\<close> is emitted first; the listener the constructor put there,
  \<^verbatim>\<open>waitForDataListener\<close>, acts on \<^verbatim>\<open>data\<close> only. (Listening to \<^verbatim>\<open>data\<close> starts flow
  mode, which reads; it is part of the pipelines below.)
\<close>

datatype watched = OnEnd | OnReadable | OnError

fun watched_name :: "watched \<Rightarrow> string" where
  "watched_name OnEnd = ''end''"
| "watched_name OnReadable = ''readable''"
| "watched_name OnError = ''error''"

definition on_outside :: "watched \<Rightarrow> nat \<Rightarrow> ('a, 'v, 'z) async_iterator_scheme \<Rightarrow> ('a, 'v, 'z) async_iterator_scheme" where
  "on_outside w l it =
     (let it1 = (if events it ''newListener'' \<noteq> [] then emit (NewListener (watched_name w)) it
                 else it)
      in it1\<lparr>events := (events it1)(watched_name w := events it1 (watched_name w) @ [External l])\<rparr>)"

text \<open>The constructor of \<^verbatim>\<open>AsyncIterator\<close>, and \<^verbatim>\<open>EmptyIterator\<close>.\<close>

definition new_AsyncIterator :: "nat \<Rightarrow> ('a, 'v) async_iterator" where
  "new_AsyncIterator initialState =
     \<lparr>state = initialState, readable_flag = False,
      events = (\<lambda>n. []) (''newListener'' := [WaitForDataListener]),
      properties = None, propertyCallbacks = None,
      emitted = [], called = [], microtasks = []\<rparr>"

definition new_EmptyIterator :: "('a, 'v) async_iterator" where
  "new_EmptyIterator = snd (changeState ENDED True (new_AsyncIterator OPEN))"

subsection \<open>Properties\<close>

text \<open>
  \<^verbatim>\<open>_properties\<close> and \<^verbatim>\<open>_propertyCallbacks\<close> are objects without prototype, or absent
  (\<open>None\<close>); their keys are kept in insertion order. \<^verbatim>\<open>getProperty\<close> is split by
  whether a callback is passed.
\<close>

definition getProperty :: "string \<Rightarrow> ('a, 'v, 'z) async_iterator_scheme \<Rightarrow> 'v option" where
  "getProperty propertyName it =
     (case properties it of None \<Rightarrow> None | Some ps \<Rightarrow> map_of ps propertyName)"

definition getProperty_cb :: "string \<Rightarrow> nat \<Rightarrow> ('a, 'v, 'z) async_iterator_scheme \<Rightarrow> ('a, 'v, 'z) async_iterator_scheme" where
  "getProperty_cb propertyName callback it =
     (if (case properties it of None \<Rightarrow> False | Some ps \<Rightarrow> map_of ps propertyName \<noteq> None)
      then queueMicrotask (TCallback callback propertyName) it
      else
        (let pcs = (case propertyCallbacks it of None \<Rightarrow> [] | Some pcs \<Rightarrow> pcs) in
         case map_of pcs propertyName of
           Some cbs \<Rightarrow> it\<lparr>propertyCallbacks := Some (AList.update propertyName (cbs @ [callback]) pcs)\<rparr>
         | None \<Rightarrow> it\<lparr>propertyCallbacks := Some (AList.update propertyName [callback] pcs)\<rparr>))"

text \<open>
  In \<^verbatim>\<open>setProperty\<close>, an absent \<^verbatim>\<open>_propertyCallbacks\<close> is replaced by the literal
  \<^verbatim>\<open>{}\<close>, which inherits from \<^verbatim>\<open>Object.prototype\<close>: for an inherited name the lookup
  yields a value that is not an array, and the deferred loop over it throws.
\<close>

definition object_prototype_keys :: "string list" where
  "object_prototype_keys =
     [''constructor'', ''hasOwnProperty'', ''isPrototypeOf'', ''propertyIsEnumerable'',
      ''toLocaleString'', ''toString'', ''valueOf'', ''__proto__'',
      ''__defineGetter__'', ''__defineSetter__'', ''__lookupGetter__'', ''__lookupSetter__'']"

definition setProperty :: "string \<Rightarrow> 'v \<Rightarrow> ('a, 'v, 'z) async_iterator_scheme \<Rightarrow> ('a, 'v, 'z) async_iterator_scheme" where
  "setProperty propertyName v it =
     (let ps = (case properties it of None \<Rightarrow> [] | Some ps \<Rightarrow> ps);
          it1 = it\<lparr>properties := Some (AList.update propertyName v ps)\<rparr>
      in case propertyCallbacks it1 of
           None \<Rightarrow>
             (if propertyName \<in> set object_prototype_keys
              then queueMicrotask TCallbacksNotIterable it1
              else it1)
         | Some pcs \<Rightarrow>
             (case map_of pcs propertyName of
                None \<Rightarrow> it1
              | Some callbacks \<Rightarrow>
                  (let pcs1 = AList.delete propertyName pcs;
                       it2 = queueMicrotask (TCallbacks callbacks v)
                               (it1\<lparr>propertyCallbacks := Some pcs1\<rparr>)
                   in if pcs1 \<noteq> [] then it2 else it2\<lparr>propertyCallbacks := None\<rparr>)))"

subsection \<open>Running deferred work\<close>

text \<open>
  The closures the base class hands to \<^verbatim>\<open>queueMicrotask\<close>. The result is \<open>Inl\<close> when
  the closure throws, and \<open>None\<close> for a closure that belongs to a subclass.
\<close>

definition run_base_task :: "'v task \<Rightarrow> ('a, 'v, 'z) async_iterator_scheme \<Rightarrow> (string + ('a, 'v, 'z) async_iterator_scheme) option" where
  "run_base_task t it =
     (case t of
        TEmitEnd \<Rightarrow> Some (Inr (emit End it))
      | TEnd \<Rightarrow> Some (Inr (end_it False it))
      | TEmitReadable \<Rightarrow> Some (Inr (emit Readable it))
      | TCallback cb n \<Rightarrow> Some (Inr (it\<lparr>called := called it @ [(cb, getProperty n it)]\<rparr>))
      | TCallbacks cbs v \<Rightarrow> Some (Inr (it\<lparr>called := called it @ map (\<lambda>cb. (cb, Some v)) cbs\<rparr>))
      | TCallbacksNotIterable \<Rightarrow> Some (Inl ''TypeError: callbacks is not iterable'')
      | _ \<Rightarrow> None)"


subsection \<open>Lifetimes\<close>

text \<open>
  What can happen to an iterator, one operation at a time: the methods of the base class
  that touch the state, the emitted events or the deferred work, the attachment of a
  listener from outside, and the execution of the oldest deferred closure.
  \<open>Destroy cause error\<close> is \<^verbatim>\<open>destroy(cause)\<close> on a class whose \<^verbatim>\<open>_destroy\<close> calls
  back at once with \<open>error\<close>; when it throws, it has not changed the iterator, which
  goes on as it is.
\<close>

datatype iterator_op =
    Close
  | Destroy "string option" "string option"
  | EndIt bool
  | EndAsync
  | ChangeState nat bool
  | SetReadable bool
  | On watched nat
  | RunMicrotask

definition calls_back :: "string option \<Rightarrow> string option \<Rightarrow> ('a, 'v, 'z) async_iterator_scheme \<Rightarrow> ('a, 'v, 'z) async_iterator_scheme \<times> string option option" where
  "calls_back error cause it = (it, Some error)"


definition run_microtask :: "('a, 'v, 'z) async_iterator_scheme \<Rightarrow> ('a, 'v, 'z) async_iterator_scheme" where
  "run_microtask it =
     (case microtasks it of
        [] \<Rightarrow> it
      | t # ts \<Rightarrow>
          (case run_base_task t (it\<lparr>microtasks := ts\<rparr>) of
             Some (Inr it1) \<Rightarrow> it1
           | _ \<Rightarrow> it\<lparr>microtasks := ts\<rparr>))"

fun step_op :: "iterator_op \<Rightarrow> ('a, 'v, 'z) async_iterator_scheme \<Rightarrow> ('a, 'v, 'z) async_iterator_scheme" where
  "step_op Close it = close it"
| "step_op (Destroy cause error) it =
     (case destroy (calls_back error) cause it of Inl e \<Rightarrow> it | Inr it1 \<Rightarrow> it1)"
| "step_op (EndIt d) it = end_it d it"
| "step_op EndAsync it = endAsync it"
| "step_op (ChangeState n a) it = snd (changeState n a it)"
| "step_op (SetReadable r) it = set_readable r it"
| "step_op (On w l) it = on_outside w l it"
| "step_op RunMicrotask it = run_microtask it"

fun run_ops :: "iterator_op list \<Rightarrow> ('a, 'v, 'z) async_iterator_scheme \<Rightarrow> ('a, 'v, 'z) async_iterator_scheme" where
  "run_ops [] it = it"
| "run_ops (x # xs) it = run_ops xs (step_op x it)"

text \<open>The states an iterator goes through: before the first operation and after each.\<close>

fun states_seen :: "iterator_op list \<Rightarrow> ('a, 'v, 'z) async_iterator_scheme \<Rightarrow> nat list" where
  "states_seen [] it = [state it]"
| "states_seen (x # xs) it = state it # states_seen xs (step_op x it)"

definition state_chain :: "nat list" where
  "state_chain = [INIT, OPEN, CLOSING, CLOSED, ENDED, DESTROYED]"

definition count_end :: "('a, 'v, 'z) async_iterator_scheme \<Rightarrow> nat" where
  "count_end it = length (filter (\<lambda>e. e = End) (emitted it))"

definition pending_end :: "('a, 'v, 'z) async_iterator_scheme \<Rightarrow> nat" where
  "pending_end it = length (filter (\<lambda>t. t = TEmitEnd) (microtasks it))"

definition released :: "('a, 'v, 'z) async_iterator_scheme \<Rightarrow> bool" where
  "released it = (events it ''readable'' = [] \<and> events it ''data'' = [] \<and> events it ''end'' = [])"

text \<open>The states asked for through \<^verbatim>\<open>_changeState\<close> in a list of operations.\<close>

fun requested_states :: "iterator_op list \<Rightarrow> nat list" where
  "requested_states [] = []"
| "requested_states (ChangeState n a # xs) = n # requested_states xs"
| "requested_states (x # xs) = requested_states xs"

text \<open>
  Every \<^verbatim>\<open>end\<close> emitted or waiting to be emitted belongs to the state \<open>ENDED\<close>,
  and that state has exactly one.
\<close>

definition end_accounted :: "('a, 'v, 'z) async_iterator_scheme \<Rightarrow> bool" where
  "end_accounted it = (count_end it + pending_end it = (if state it = ENDED then 1 else 0))"

text \<open>Operations that call the protected \<^verbatim>\<open>_changeState\<close> from outside the class.\<close>

fun direct_change :: "iterator_op \<Rightarrow> bool" where
  "direct_change (ChangeState n a) = True"
| "direct_change x = False"

text \<open>
  Whether a property is set, and the callbacks waiting for a property name, in the order
  of the array that holds them.
\<close>

definition has_property :: "string \<Rightarrow> ('a, 'v, 'z) async_iterator_scheme \<Rightarrow> bool" where
  "has_property n it = (case properties it of None \<Rightarrow> False | Some ps \<Rightarrow> map_of ps n \<noteq> None)"

definition pending_callbacks :: "string \<Rightarrow> ('a, 'v, 'z) async_iterator_scheme \<Rightarrow> nat list" where
  "pending_callbacks n it =
     (case propertyCallbacks it of
        None \<Rightarrow> []
      | Some pcs \<Rightarrow> (case map_of pcs n of None \<Rightarrow> [] | Some cbs \<Rightarrow> cbs))"

text \<open>An iterator on which three callbacks wait for property \<open>a\<close> and one for \<open>b\<close>.\<close>

definition three_waiting :: "(nat, nat) async_iterator" where
  "three_waiting =
     getProperty_cb ''b'' 7 (fold (getProperty_cb ''a'') [1, 2, 3] (new_AsyncIterator OPEN))"

section \<open>BufferedIterator\<close>

text \<open>
  Numbers as the setter of \<^verbatim>\<open>maxBufferSize\<close> can receive them: a finite value, an
  infinity or \<^verbatim>\<open>NaN\<close>. \<open>js_trunc\<close> is \<^verbatim>\<open>Math.trunc\<close>, rounding towards zero.
\<close>

datatype jsnum = Finite rat | PosInfinity | NegInfinity | NaN

definition js_trunc :: "rat \<Rightarrow> int" where
  "js_trunc q = (if q < 0 then - \<lfloor>- q\<rfloor> else \<lfloor>q\<rfloor>)"

text \<open>
  The value the setter stores: \<^verbatim>\<open>Infinity\<close> as it is; otherwise 4 when the value is not
  finite, and \<^verbatim>\<open>Math.max(Math.trunc(maxBufferSize), 1)\<close> when it is. The stored value is
  an extended natural number.
\<close>

definition coerce_maxBufferSize :: "jsnum \<Rightarrow> enat" where
  "coerce_maxBufferSize v =
     (if v \<noteq> PosInfinity then
        (case v of Finite q \<Rightarrow> enat (nat (max (js_trunc q) 1)) | _ \<Rightarrow> 4)
      else \<infinity>)"

record ('a, 'v) buffered_iterator = "('a, 'v) async_iterator" +
  buffer :: "'a list"
  maxBufferSize :: enat
  reading :: bool
  pushedCount :: nat

text \<open>
  The overridable \<^verbatim>\<open>_begin(done)\<close>, \<^verbatim>\<open>_read(count, done)\<close> and \<^verbatim>\<open>_flush(done)\<close> are
  parameters: each either throws (\<open>Inl\<close>), or updates the iterator and says whether it
  ended by calling \<open>done\<close>. The versions of \<^verbatim>\<open>BufferedIterator\<close> itself only call
  \<open>done\<close>.
\<close>

type_synonym ('a, 'v, 'z) hook =
  "('a, 'v, 'z) buffered_iterator_scheme \<Rightarrow> string + ('a, 'v, 'z) buffered_iterator_scheme \<times> bool"

definition base_hook :: "('a, 'v, 'z) hook" where
  "base_hook it = Inr (it, True)"

definition fillBufferAsync :: "('a, 'v, 'z) buffered_iterator_scheme \<Rightarrow> ('a, 'v, 'z) buffered_iterator_scheme" where
  "fillBufferAsync it =
     (if \<not> reading it then queueMicrotask TFillBuffer (it\<lparr>reading := True\<rparr>) else it)"

text \<open>The callback \<^verbatim>\<open>_completeClose\<close> passes to \<^verbatim>\<open>_flush\<close>, and \<^verbatim>\<open>_completeClose\<close>.\<close>

definition flush_done :: "('a, 'v, 'z) buffered_iterator_scheme \<Rightarrow> string + ('a, 'v, 'z) buffered_iterator_scheme" where
  "flush_done it =
     (if \<not> reading it then Inl ''done callback called multiple times''
      else
        (let it1 = it\<lparr>reading := False\<rparr> in
         if buffer it1 = [] then Inr (endAsync it1) else Inr it1))"

definition completeClose :: "('a, 'v, 'z) hook \<Rightarrow> ('a, 'v, 'z) buffered_iterator_scheme \<Rightarrow> string + ('a, 'v, 'z) buffered_iterator_scheme" where
  "completeClose flush_hook it =
     (case changeState CLOSED False it of
        (True, it1) \<Rightarrow>
          (case flush_hook (it1\<lparr>reading := True\<rparr>) of
             Inl e \<Rightarrow> Inl e
           | Inr (it2, True) \<Rightarrow> flush_done it2
           | Inr (it2, False) \<Rightarrow> Inr it2)
      | (False, it1) \<Rightarrow> Inr it1)"

text \<open>
  \<^verbatim>\<open>_fillBuffer\<close>. \<open>neededItems\<close> is \<^verbatim>\<open>Math.min(maxBufferSize - buffer.length, 128)\<close>;
  \<open>fillBuffer_done\<close> is the callback passed to \<^verbatim>\<open>_read\<close>, which receives the value
  of \<open>neededItems\<close> it finds.
\<close>

definition neededItems :: "('a, 'v, 'z) buffered_iterator_scheme \<Rightarrow> int" where
  "neededItems it =
     (case maxBufferSize it of
        enat m \<Rightarrow> min (int m - int (length (buffer it))) 128
      | \<infinity> \<Rightarrow> 128)"

definition fillBuffer_done :: "('a, 'v, 'z) hook \<Rightarrow> int \<Rightarrow> ('a, 'v, 'z) buffered_iterator_scheme \<Rightarrow> string + ('a, 'v, 'z) buffered_iterator_scheme" where
  "fillBuffer_done flush_hook needed it =
     (if needed = 0 then Inl ''done callback called multiple times''
      else
        (let it1 = it\<lparr>reading := False\<rparr> in
         if is_closed it1 then completeClose flush_hook it1
         else if pushedCount it1 \<noteq> 0 then
           (let it2 = set_readable True it1 in
            if 2 * enat (length (buffer it2)) < maxBufferSize it2
            then Inr (fillBufferAsync it2) else Inr it2)
         else Inr it1))"

definition fillBuffer :: "(nat \<Rightarrow> ('a, 'v, 'z) hook) \<Rightarrow> ('a, 'v, 'z) hook \<Rightarrow> ('a, 'v, 'z) buffered_iterator_scheme \<Rightarrow> string + ('a, 'v, 'z) buffered_iterator_scheme" where
  "fillBuffer read_hook flush_hook it =
     (if reading it then Inr it
      else if is_closed it then completeClose flush_hook it
      else if neededItems it > 0 then
        (case read_hook (nat (neededItems it)) (it\<lparr>pushedCount := 0, reading := True\<rparr>) of
           Inl e \<Rightarrow> Inl e
         | Inr (it1, True) \<Rightarrow> fillBuffer_done flush_hook (neededItems it) it1
         | Inr (it1, False) \<Rightarrow> Inr it1)
      else Inr it)"

text \<open>The setter of \<^verbatim>\<open>maxBufferSize\<close>.\<close>

definition set_maxBufferSize :: "(nat \<Rightarrow> ('a, 'v, 'z) hook) \<Rightarrow> ('a, 'v, 'z) hook \<Rightarrow> jsnum \<Rightarrow> ('a, 'v, 'z) buffered_iterator_scheme \<Rightarrow> string + ('a, 'v, 'z) buffered_iterator_scheme" where
  "set_maxBufferSize read_hook flush_hook v it =
     (let m = coerce_maxBufferSize v in
      if maxBufferSize it \<noteq> m then
        (let it1 = it\<lparr>maxBufferSize := m\<rparr> in
         if state it1 = OPEN then fillBuffer read_hook flush_hook it1 else Inr it1)
      else Inr it)"

text \<open>\<^verbatim>\<open>read()\<close> and \<^verbatim>\<open>_push(item)\<close>; \<open>None\<close> is \<^verbatim>\<open>null\<close>.\<close>

definition buffered_read :: "('a, 'v, 'z) buffered_iterator_scheme \<Rightarrow> 'a option \<times> ('a, 'v, 'z) buffered_iterator_scheme" where
  "buffered_read it =
     (if is_done it then (None, it)
      else
        (let (item, it1) = (case buffer it of
                              x # xs \<Rightarrow> (Some x, it\<lparr>buffer := xs\<rparr>)
                            | [] \<Rightarrow> (None, set_readable False it));
             it2 = (if \<not> reading it1 \<and> enat (length (buffer it1)) < maxBufferSize it1 then
                      (if \<not> is_closed it1 then fillBufferAsync it1
                       else if buffer it1 = [] then endAsync it1
                       else it1)
                    else it1)
         in (item, it2)))"

definition push :: "'a \<Rightarrow> ('a, 'v, 'z) buffered_iterator_scheme \<Rightarrow> ('a, 'v, 'z) buffered_iterator_scheme" where
  "push item it =
     (if \<not> is_done it then
        set_readable True (it\<lparr>pushedCount := pushedCount it + 1, buffer := buffer it @ [item]\<rparr>)
      else it)"

text \<open>\<^verbatim>\<open>close()\<close>, \<^verbatim>\<open>_destroy\<close>, \<^verbatim>\<open>_init\<close> with its callback, and the constructor.\<close>

definition buffered_close :: "('a, 'v, 'z) hook \<Rightarrow> ('a, 'v, 'z) buffered_iterator_scheme \<Rightarrow> string + ('a, 'v, 'z) buffered_iterator_scheme" where
  "buffered_close flush_hook it =
     (if \<not> reading it then completeClose flush_hook it
      else Inr (snd (changeState CLOSING False it)))"

definition buffered_destroy :: "string option \<Rightarrow> ('a, 'v, 'z) buffered_iterator_scheme \<Rightarrow> ('a, 'v, 'z) buffered_iterator_scheme \<times> string option option" where
  "buffered_destroy cause it = (it\<lparr>buffer := []\<rparr>, Some None)"

definition init_done :: "bool \<Rightarrow> bool \<Rightarrow> ('a, 'v, 'z) buffered_iterator_scheme \<Rightarrow> string + ('a, 'v, 'z) buffered_iterator_scheme" where
  "init_done doneCalled autoStart it =
     (if doneCalled then Inl ''done callback called multiple times''
      else
        (let it1 = snd (changeState OPEN False (it\<lparr>reading := False\<rparr>)) in
         if autoStart then Inr (fillBufferAsync it1) else Inr (set_readable True it1)))"

definition init :: "('a, 'v, 'z) hook \<Rightarrow> bool \<Rightarrow> ('a, 'v, 'z) buffered_iterator_scheme \<Rightarrow> string + ('a, 'v, 'z) buffered_iterator_scheme" where
  "init begin_hook autoStart it =
     (case begin_hook (it\<lparr>reading := True\<rparr>) of
        Inl e \<Rightarrow> Inl e
      | Inr (it1, True) \<Rightarrow> init_done False autoStart it1
      | Inr (it1, False) \<Rightarrow> Inr it1)"

definition new_BufferedIterator :: "jsnum \<Rightarrow> bool \<Rightarrow> ('a, 'v) buffered_iterator" where
  "new_BufferedIterator sz autoStart =
     (let it = async_iterator.extend (new_AsyncIterator INIT)
                 (buffered_iterator.fields [] 4 True 0);
          m = coerce_maxBufferSize sz;
          it1 = (if maxBufferSize it \<noteq> m then it\<lparr>maxBufferSize := m\<rparr> else it)
      in queueMicrotask (TInit autoStart) it1)"

text \<open>The closures of \<^verbatim>\<open>BufferedIterator\<close> handed to \<^verbatim>\<open>queueMicrotask\<close>.\<close>

definition run_buffered_task :: "('a, 'v, 'z) hook \<Rightarrow> (nat \<Rightarrow> ('a, 'v, 'z) hook) \<Rightarrow> ('a, 'v, 'z) hook \<Rightarrow> 'v task \<Rightarrow> ('a, 'v, 'z) buffered_iterator_scheme \<Rightarrow> string + ('a, 'v, 'z) buffered_iterator_scheme" where
  "run_buffered_task begin_hook read_hook flush_hook t it =
     (case t of
        TInit autoStart \<Rightarrow> init begin_hook autoStart it
      | TFillBuffer \<Rightarrow> fillBuffer read_hook flush_hook (it\<lparr>reading := False\<rparr>)
      | _ \<Rightarrow> (case run_base_task t it of Some r \<Rightarrow> r | None \<Rightarrow> Inr it))"

text \<open>
  Sample iterators: one that has ended with two items left in its buffer, one that is
  open and idle, and a \<^verbatim>\<open>_read\<close> that pushes one item and calls \<open>done\<close>.
\<close>

definition ended_with_items :: "(nat, nat) buffered_iterator" where
  "ended_with_items = (new_BufferedIterator (Finite 4) True)\<lparr>state := ENDED, buffer := [5, 6]\<rparr>"

definition open_idle :: "(nat, nat) buffered_iterator" where
  "open_idle = (new_BufferedIterator (Finite 4) True)\<lparr>state := OPEN, reading := False, microtasks := []\<rparr>"

definition push_one :: "nat \<Rightarrow> (nat, nat, unit) hook" where
  "push_one count it = Inr (push 1 it, True)"

section \<open>ClonedIterator and its history\<close>

record ('a, 'v) cloned_iterator = "('a, 'v) buffered_iterator" +
  readPosition :: nat

text \<open>
  The fields of \<^verbatim>\<open>TransformIterator\<close> and \<^verbatim>\<open>SimpleTransformIterator\<close> that hold
  settings. \<open>limit = None\<close> is \<^verbatim>\<open>Infinity\<close>; \<open>map_fn = None\<close> is no \<^verbatim>\<open>_map\<close>;
  \<open>transform_fn\<close> is \<^verbatim>\<open>_transform\<close> when it is a function: one that pushes the
  listed items and then calls \<open>done\<close>.
\<close>

record ('a, 'v) simple_transform = "('a, 'v) cloned_iterator" +
  destroySource :: bool
  optional :: bool
  offset :: int
  limit :: "int option"
  filter_fn :: "'a \<Rightarrow> bool"
  map_fn :: "('a \<Rightarrow> 'a option) option"
  transform_fn :: "('a \<Rightarrow> 'a list) option"

section \<open>Iterators linked into pipelines\<close>

datatype cls = AsyncIteratorC | EmptyIteratorC | ArrayIteratorC | IntegerIteratorC
  | SimpleTransformIteratorC | ClonedIteratorC

datatype dest = DestTransform nat | DestHistory nat

record sobj = "(jsnum, unit) simple_transform" +
  cls :: cls
  array_buffer :: "jsnum list option"
  int_next :: jsnum
  int_step :: jsnum
  int_last :: jsnum
  source :: "nat option"
  destination :: "dest option"
  prepender :: "nat option"
  appender :: "nat option"

record history_reader =
  h_source :: nat
  h_clones :: "nat list option"
  h_history :: "jsnum list"

record system =
  objs :: "sobj list"
  readers :: "history_reader list"
  queue :: "(nat \<times> unit task) list"
  received :: "(nat \<times> nat \<times> jsnum event) list"
  ret :: "jsnum option"

type_synonym result = "string + system"

definition obj :: "system \<Rightarrow> nat \<Rightarrow> sobj" where
  "obj s i = objs s ! i"

definition upd :: "nat \<Rightarrow> (sobj \<Rightarrow> sobj) \<Rightarrow> system \<Rightarrow> system" where
  "upd i f s = s\<lparr>objs := (objs s)[i := f (objs s ! i)]\<rparr>"

definition commit :: "nat \<Rightarrow> system \<Rightarrow> system" where
  "commit i s =
     s\<lparr>objs := (objs s)[i := (objs s ! i)\<lparr>microtasks := []\<rparr>],
       queue := queue s @ map (Pair i) (microtasks (objs s ! i))\<rparr>"

definition invoke :: "nat \<Rightarrow> (sobj \<Rightarrow> sobj) \<Rightarrow> system \<Rightarrow> system" where
  "invoke i f s = commit i (upd i f s)"

definition and_then :: "result \<Rightarrow> (system \<Rightarrow> result) \<Rightarrow> result" where
  "and_then r f = (case r of Inl e \<Rightarrow> Inl e | Inr s \<Rightarrow> f s)"

text \<open>Arithmetic and comparison of numbers, for \<^verbatim>\<open>IntegerIterator\<close>.\<close>

fun js_add :: "jsnum \<Rightarrow> jsnum \<Rightarrow> jsnum" where
  "js_add (Finite a) (Finite b) = Finite (a + b)"
| "js_add NaN y = NaN"
| "js_add x NaN = NaN"
| "js_add PosInfinity NegInfinity = NaN"
| "js_add NegInfinity PosInfinity = NaN"
| "js_add PosInfinity y = PosInfinity"
| "js_add NegInfinity y = NegInfinity"
| "js_add x PosInfinity = PosInfinity"
| "js_add x NegInfinity = NegInfinity"

fun js_less :: "jsnum \<Rightarrow> jsnum \<Rightarrow> bool" where
  "js_less (Finite a) (Finite b) = (a < b)"
| "js_less NaN y = False"
| "js_less x NaN = False"
| "js_less NegInfinity NegInfinity = False"
| "js_less NegInfinity y = True"
| "js_less x PosInfinity = (x \<noteq> PosInfinity)"
| "js_less x y = False"

fun js_neg :: "jsnum \<Rightarrow> jsnum" where
  "js_neg (Finite a) = Finite (- a)"
| "js_neg PosInfinity = NegInfinity"
| "js_neg NegInfinity = PosInfinity"
| "js_neg NaN = NaN"

definition js_sub :: "jsnum \<Rightarrow> jsnum \<Rightarrow> jsnum" where
  "js_sub x y = js_add x (js_neg y)"

definition js_Math_max :: "jsnum \<Rightarrow> jsnum \<Rightarrow> jsnum" where
  "js_Math_max x y = (if x = NaN \<or> y = NaN then NaN else if js_less x y then y else x)"

definition js_isFinite :: "jsnum \<Rightarrow> bool" where
  "js_isFinite x = (case x of Finite q \<Rightarrow> True | _ \<Rightarrow> False)"

definition js_Math_trunc :: "jsnum \<Rightarrow> jsnum" where
  "js_Math_trunc x = (case x of Finite q \<Rightarrow> Finite (of_int (js_trunc q)) | _ \<Rightarrow> x)"

datatype call =
    Listener listener nat "jsnum event"
  | Read nat
  | CloseIt nat
  | DestroyIt nat "string option"
  | EndOf nat bool
  | FillBuffer nat
  | EmitDataLoop nat
  | ReadLoop nat nat
  | RunTask nat "unit task"

type_synonym exec = "call \<Rightarrow> system \<Rightarrow> result"

subsection \<open>Events\<close>

fun call_listeners :: "exec \<Rightarrow> nat \<Rightarrow> jsnum event \<Rightarrow> listener list \<Rightarrow> system \<Rightarrow> result" where
  "call_listeners rec i ev [] s = Inr s"
| "call_listeners rec i ev (l # ls) s = and_then (rec (Listener l i ev) s) (call_listeners rec i ev ls)"

definition dispatch :: "exec \<Rightarrow> nat \<Rightarrow> jsnum event \<Rightarrow> system \<Rightarrow> result" where
  "dispatch rec i ev s = call_listeners rec i ev (events (obj s i) (event_name ev)) s"

text \<open>
  \<^verbatim>\<open>emit\<close>: the listeners of the event are called in the order of their attachment.
  \<^verbatim>\<open>error\<close> without a listener is thrown.
\<close>

definition sys_emit :: "exec \<Rightarrow> nat \<Rightarrow> jsnum event \<Rightarrow> system \<Rightarrow> result" where
  "sys_emit rec i ev s =
     (case ev of
        Error e \<Rightarrow>
          (if events (obj s i) ''error'' = [] then Inl e
           else dispatch rec i ev (upd i (emit ev) s))
      | _ \<Rightarrow> dispatch rec i ev (upd i (emit ev) s))"

definition add_listener :: "string \<Rightarrow> listener \<Rightarrow> sobj \<Rightarrow> sobj" where
  "add_listener n l ob = ob\<lparr>events := (events ob)(n := events ob n @ [l])\<rparr>"

definition on :: "exec \<Rightarrow> nat \<Rightarrow> string \<Rightarrow> listener \<Rightarrow> system \<Rightarrow> result" where
  "on rec i n l s =
     and_then (if events (obj s i) ''newListener'' \<noteq> [] then sys_emit rec i (NewListener n) s else Inr s)
       (\<lambda>s1. Inr (upd i (add_listener n l) s1))"

definition remove_last :: "'a \<Rightarrow> 'a list \<Rightarrow> 'a list" where
  "remove_last x xs = rev (remove1 x (rev xs))"

definition removeListener :: "string \<Rightarrow> listener \<Rightarrow> sobj \<Rightarrow> sobj" where
  "removeListener n l ob = ob\<lparr>events := (events ob)(n := remove_last l (events ob n))\<rparr>"

definition hasListeners :: "string \<Rightarrow> sobj \<Rightarrow> bool" where
  "hasListeners n ob = (events ob n \<noteq> [])"

definition addSingleListener :: "exec \<Rightarrow> nat \<Rightarrow> string \<Rightarrow> listener \<Rightarrow> system \<Rightarrow> result" where
  "addSingleListener rec i n l s =
     (if l \<notin> set (events (obj s i) n) then on rec i n l s else Inr s)"

subsection \<open>Flow mode\<close>

definition waitForDataListener :: "exec \<Rightarrow> nat \<Rightarrow> string \<Rightarrow> system \<Rightarrow> result" where
  "waitForDataListener rec i eventName s =
     (if eventName = ''data'' then
        and_then (addSingleListener rec i ''readable'' EmitData
                   (upd i (removeListener ''newListener'' WaitForDataListener) s))
          (\<lambda>s1. if readable_flag (obj s1 i)
                 then Inr (s1\<lparr>queue := queue s1 @ [(i, TEmitData)]\<rparr>) else Inr s1)
      else Inr s)"

definition emitData_loop :: "exec \<Rightarrow> nat \<Rightarrow> system \<Rightarrow> result" where
  "emitData_loop rec i s =
     (if hasListeners ''data'' (obj s i) then
        and_then (rec (Read i) s)
          (\<lambda>s1. case ret s1 of
                   None \<Rightarrow> Inr s1
                 | Some item \<Rightarrow> and_then (sys_emit rec i (Data item) s1) (rec (EmitDataLoop i)))
      else Inr s)"

definition emitData :: "exec \<Rightarrow> nat \<Rightarrow> system \<Rightarrow> result" where
  "emitData rec i s =
     and_then (rec (EmitDataLoop i) s)
       (\<lambda>s1. if \<not> hasListeners ''data'' (obj s1 i) \<and> \<not> is_done (obj s1 i) then
                addSingleListener rec i ''newListener'' WaitForDataListener
                  (upd i (removeListener ''readable'' EmitData) s1)
              else Inr s1)"

subsection \<open>Methods of the classes\<close>

definition invoke_r :: "nat \<Rightarrow> (sobj \<Rightarrow> string + sobj) \<Rightarrow> system \<Rightarrow> result" where
  "invoke_r i f s = (case f (obj s i) of Inl e \<Rightarrow> Inl e | Inr ob \<Rightarrow> Inr (commit i (upd i (\<lambda>_. ob) s)))"

definition returning :: "nat \<Rightarrow> (sobj \<Rightarrow> jsnum option \<times> sobj) \<Rightarrow> system \<Rightarrow> system" where
  "returning i f s = (case f (obj s i) of (r, ob1) \<Rightarrow> (commit i (upd i (\<lambda>_. ob1) s))\<lparr>ret := r\<rparr>)"

definition base_end :: "exec \<Rightarrow> nat \<Rightarrow> bool \<Rightarrow> system \<Rightarrow> result" where
  "base_end rec i d s =
     (case changeState (if d then DESTROYED else ENDED) False (obj s i) of
        (True, ob1) \<Rightarrow>
          and_then (if d then Inr (upd i (\<lambda>_. ob1) s) else dispatch rec i End (upd i (\<lambda>_. ob1) s))
            (\<lambda>s1. Inr (upd i (\<lambda>ob. removeAllListeners ''end'' (removeAllListeners ''data''
                     (removeAllListeners ''readable'' (ob\<lparr>readable_flag := False\<rparr>)))) s1))
      | (False, ob1) \<Rightarrow> Inr s)"

definition array_read :: "sobj \<Rightarrow> jsnum option \<times> sobj" where
  "array_read ob =
     (case array_buffer ob of
        None \<Rightarrow> (None, ob)
      | Some [] \<Rightarrow> (None, close (ob\<lparr>array_buffer := None\<rparr>))
      | Some (x # xs) \<Rightarrow>
          (if xs = [] then (Some x, close (ob\<lparr>array_buffer := None\<rparr>))
           else (Some x, ob\<lparr>array_buffer := Some xs\<rparr>)))"

definition integer_read :: "sobj \<Rightarrow> jsnum option \<times> sobj" where
  "integer_read ob =
     (if is_closed ob then (None, ob)
      else
        (let current = int_next ob; nxt = js_add (int_next ob) (int_step ob);
             ob1 = ob\<lparr>int_next := nxt\<rparr>
         in if (if \<not> js_less (int_step ob) (Finite 0) \<and> int_step ob \<noteq> NaN
                then js_less (int_last ob) nxt else js_less nxt (int_last ob))
            then (Some current, close ob1) else (Some current, ob1)))"

text \<open>\<^verbatim>\<open>HistoryReader\<close>\<close>

definition reader :: "system \<Rightarrow> nat \<Rightarrow> history_reader" where
  "reader s h = readers s ! h"

definition upd_reader :: "nat \<Rightarrow> (history_reader \<Rightarrow> history_reader) \<Rightarrow> system \<Rightarrow> system" where
  "upd_reader h f s = s\<lparr>readers := (readers s)[h := f (readers s ! h)]\<rparr>"

definition readAt :: "exec \<Rightarrow> nat \<Rightarrow> nat \<Rightarrow> system \<Rightarrow> result" where
  "readAt rec h pos s =
     (if pos < length (h_history (reader s h)) then Inr (s\<lparr>ret := Some (h_history (reader s h) ! pos)\<rparr>)
      else if \<not> ended (obj s (h_source (reader s h))) then
        and_then (rec (Read (h_source (reader s h))) s)
          (\<lambda>s1. case ret s1 of
                   None \<Rightarrow> Inr s1
                 | Some item \<Rightarrow>
                     if pos = length (h_history (reader s1 h))
                     then Inr (upd_reader h (\<lambda>r. r\<lparr>h_history := h_history r @ [item]\<rparr>) s1)
                     else Inl ''position beyond the history'')
      else Inr (s\<lparr>ret := None\<rparr>))"

definition endsAt :: "nat \<Rightarrow> nat \<Rightarrow> system \<Rightarrow> bool" where
  "endsAt h pos s = (ended (obj s (h_source (reader s h))) \<and> length (h_history (reader s h)) = pos)"

definition register :: "nat \<Rightarrow> nat \<Rightarrow> system \<Rightarrow> system" where
  "register h c s =
     upd_reader h (\<lambda>r. case h_clones r of None \<Rightarrow> r | Some cs \<Rightarrow> r\<lparr>h_clones := Some (cs @ [c])\<rparr>) s"

definition unregister :: "nat \<Rightarrow> nat \<Rightarrow> system \<Rightarrow> system" where
  "unregister h c s =
     upd_reader h (\<lambda>r. case h_clones r of None \<Rightarrow> r
                        | Some cs \<Rightarrow> r\<lparr>h_clones := Some (filter (\<lambda>x. x \<noteq> c) cs)\<rparr>) s"

definition cloned_read :: "exec \<Rightarrow> nat \<Rightarrow> system \<Rightarrow> result" where
  "cloned_read rec i s =
     (case source (obj s i) of
        None \<Rightarrow> Inr (s\<lparr>ret := None\<rparr>)
      | Some src \<Rightarrow>
          if is_done (obj s i) then Inr (s\<lparr>ret := None\<rparr>)
          else
            (case destination (obj s src) of
               Some (DestHistory h) \<Rightarrow>
                 and_then (readAt rec h (readPosition (obj s i)) s)
                   (\<lambda>s1. let item = ret s1;
                              s2 = (case item of
                                      Some x \<Rightarrow> upd i (\<lambda>ob. ob\<lparr>readPosition := readPosition ob + 1\<rparr>) s1
                                    | None \<Rightarrow> invoke i (set_readable False) s1)
                          in and_then (if endsAt h (readPosition (obj s2 i)) s2
                                       then rec (CloseIt i) s2 else Inr s2)
                               (\<lambda>s3. Inr (s3\<lparr>ret := item\<rparr>)))
             | _ \<Rightarrow> Inl ''TypeError: history.readAt is not a function''))"

definition sys_read :: "exec \<Rightarrow> nat \<Rightarrow> system \<Rightarrow> result" where
  "sys_read rec i s =
     (case cls (obj s i) of
        ArrayIteratorC \<Rightarrow> Inr (returning i array_read s)
      | IntegerIteratorC \<Rightarrow> Inr (returning i integer_read s)
      | SimpleTransformIteratorC \<Rightarrow> Inr (returning i buffered_read s)
      | ClonedIteratorC \<Rightarrow> cloned_read rec i s
      | _ \<Rightarrow> Inr (s\<lparr>ret := None\<rparr>))"

text \<open>\<^verbatim>\<open>_insert\<close>, \<^verbatim>\<open>_begin\<close> and \<^verbatim>\<open>_flush\<close> with their \<open>done\<close> callbacks\<close>

definition phase_done :: "phase \<Rightarrow> nat \<Rightarrow> system \<Rightarrow> result" where
  "phase_done ph i s =
     (case ph of Begin autoStart \<Rightarrow> invoke_r i (init_done False autoStart) s
               | Flush \<Rightarrow> invoke_r i flush_done s)"

definition insert_items :: "exec \<Rightarrow> nat \<Rightarrow> nat option \<Rightarrow> phase \<Rightarrow> system \<Rightarrow> result" where
  "insert_items rec i inserter ph s =
     (case inserter of
        None \<Rightarrow> phase_done ph i s
      | Some ins \<Rightarrow>
          if ended (obj s ins) then phase_done ph i s
          else and_then (on rec ins ''data'' (InsertPush i) s) (on rec ins ''end'' (InsertEnd i ph)))"

definition insert_end :: "nat \<Rightarrow> phase \<Rightarrow> nat \<Rightarrow> system \<Rightarrow> result" where
  "insert_end i ph ins s =
     phase_done ph i
       (upd ins (removeListener ''end'' (InsertEnd i ph))
          (upd ins (removeListener ''data'' (InsertPush i)) s))"

definition sys_begin :: "exec \<Rightarrow> nat \<Rightarrow> bool \<Rightarrow> system \<Rightarrow> result" where
  "sys_begin rec i autoStart s =
     (case cls (obj s i) of
        SimpleTransformIteratorC \<Rightarrow>
          and_then (insert_items rec i (prepender (obj s i)) (Begin autoStart) s)
            (\<lambda>s1. Inr (upd i (\<lambda>ob. ob\<lparr>prepender := None\<rparr>) s1))
      | _ \<Rightarrow> phase_done (Begin autoStart) i s)"

definition sys_flush :: "exec \<Rightarrow> nat \<Rightarrow> system \<Rightarrow> result" where
  "sys_flush rec i s =
     (case cls (obj s i) of
        SimpleTransformIteratorC \<Rightarrow>
          and_then (insert_items rec i (appender (obj s i)) Flush s)
            (\<lambda>s1. Inr (upd i (\<lambda>ob. ob\<lparr>appender := None\<rparr>) s1))
      | _ \<Rightarrow> phase_done Flush i s)"

definition sys_init :: "exec \<Rightarrow> nat \<Rightarrow> bool \<Rightarrow> system \<Rightarrow> result" where
  "sys_init rec i autoStart s =
     (case cls (obj s i) of
        ClonedIteratorC \<Rightarrow> Inr s
      | _ \<Rightarrow> sys_begin rec i autoStart (upd i (\<lambda>ob. ob\<lparr>reading := True\<rparr>) s))"

definition sys_completeClose :: "exec \<Rightarrow> nat \<Rightarrow> system \<Rightarrow> result" where
  "sys_completeClose rec i s =
     (case changeState CLOSED False (obj s i) of
        (True, ob1) \<Rightarrow> sys_flush rec i (upd i (\<lambda>_. ob1\<lparr>reading := True\<rparr>) s)
      | (False, ob1) \<Rightarrow> Inr s)"

definition sys_close :: "exec \<Rightarrow> nat \<Rightarrow> system \<Rightarrow> result" where
  "sys_close rec i s =
     (case cls (obj s i) of
        SimpleTransformIteratorC \<Rightarrow>
          if \<not> reading (obj s i) then sys_completeClose rec i s
          else Inr (invoke i (\<lambda>ob. snd (changeState CLOSING False ob)) s)
      | _ \<Rightarrow> Inr (invoke i close s))"

definition sys_fillBuffer_done :: "exec \<Rightarrow> nat \<Rightarrow> nat \<Rightarrow> system \<Rightarrow> result" where
  "sys_fillBuffer_done rec needed i s =
     (if needed = 0 then Inl ''done callback called multiple times''
      else
        (let s1 = upd i (\<lambda>ob. ob\<lparr>reading := False\<rparr>) s in
         if is_closed (obj s1 i) then sys_completeClose rec i s1
         else if pushedCount (obj s1 i) \<noteq> 0 then
           Inr (invoke i (\<lambda>ob. let ob2 = set_readable True ob in
                               if 2 * enat (length (buffer ob2)) < maxBufferSize ob2
                               then fillBufferAsync ob2 else ob2) s1)
         else Inr s1))"

text \<open>\<^verbatim>\<open>_readAndTransformSimple\<close>: the part before the loop, and the loop\<close>

definition limit_step :: "exec \<Rightarrow> nat \<Rightarrow> system \<Rightarrow> result" where
  "limit_step rec i s =
     (let s1 = upd i (\<lambda>ob. ob\<lparr>limit := map_option (\<lambda>k. k - 1) (limit ob)\<rparr>) s in
      if limit (obj s1 i) = Some 0 then rec (CloseIt i) s1 else Inr s1)"

definition push_all :: "jsnum list \<Rightarrow> sobj \<Rightarrow> sobj" where
  "push_all xs ob = fold push xs ob"

definition read_loop :: "exec \<Rightarrow> nat \<Rightarrow> nat \<Rightarrow> system \<Rightarrow> result" where
  "read_loop rec i count s =
     (case source (obj s i) of
        None \<Rightarrow> Inl ''TypeError: source is undefined''
      | Some src \<Rightarrow>
          if \<not> is_closed (obj s i) \<and> pushedCount (obj s i) < count then
            and_then (rec (Read src) s)
              (\<lambda>s1. case ret s1 of
                 None \<Rightarrow> sys_fillBuffer_done rec count i s1
               | Some item \<Rightarrow>
                   if \<not> filter_fn (obj s1 i) item then rec (ReadLoop i count) s1
                   else if offset (obj s1 i) \<noteq> 0
                   then rec (ReadLoop i count) (upd i (\<lambda>ob. ob\<lparr>offset := offset ob - 1\<rparr>) s1)
                   else
                     (case (case map_fn (obj s1 i) of None \<Rightarrow> Some item | Some f \<Rightarrow> f item) of
                        None \<Rightarrow>
                          and_then (limit_step rec i
                                      (if optional (obj s1 i) then invoke i (push item) s1 else s1))
                            (rec (ReadLoop i count))
                      | Some mappedItem \<Rightarrow>
                          (case transform_fn (obj s1 i) of
                             None \<Rightarrow>
                               and_then (limit_step rec i (invoke i (push mappedItem) s1))
                                 (rec (ReadLoop i count))
                           | Some f \<Rightarrow>
                               (let pushed_before = pushedCount (obj s1 i);
                                    s2 = invoke i (push_all (f mappedItem)) s1;
                                    s3 = (if optional (obj s2 i) \<and> pushed_before = pushedCount (obj s2 i)
                                          then invoke i (push mappedItem) s2 else s2)
                                in Inr (s3\<lparr>queue := queue s3 @ [(i, TNext count)]\<rparr>)))))
          else sys_fillBuffer_done rec count i s)"

definition readAndTransformSimple :: "exec \<Rightarrow> nat \<Rightarrow> nat \<Rightarrow> system \<Rightarrow> result" where
  "readAndTransformSimple rec i count s =
     (case source (obj s i) of
        None \<Rightarrow> sys_fillBuffer_done rec count i s
      | Some src \<Rightarrow>
          if ended (obj s src) then sys_fillBuffer_done rec count i s
          else and_then (if limit (obj s i) = Some 0 then rec (CloseIt i) s else Inr s)
                 (rec (ReadLoop i count)))"

definition sys_read_hook :: "exec \<Rightarrow> nat \<Rightarrow> nat \<Rightarrow> system \<Rightarrow> result" where
  "sys_read_hook rec i count s =
     (case cls (obj s i) of
        SimpleTransformIteratorC \<Rightarrow> readAndTransformSimple rec i count s
      | _ \<Rightarrow> sys_fillBuffer_done rec count i s)"

definition sys_fillBuffer :: "exec \<Rightarrow> nat \<Rightarrow> system \<Rightarrow> result" where
  "sys_fillBuffer rec i s =
     (if reading (obj s i) then Inr s
      else if is_closed (obj s i) then sys_completeClose rec i s
      else if neededItems (obj s i) > 0 then
        sys_read_hook rec i (nat (neededItems (obj s i)))
          (upd i (\<lambda>ob. ob\<lparr>pushedCount := 0, reading := True\<rparr>) s)
      else Inr s)"

text \<open>\<^verbatim>\<open>_end\<close> of the classes, and \<^verbatim>\<open>destroy\<close>\<close>

definition transform_end :: "exec \<Rightarrow> nat \<Rightarrow> bool \<Rightarrow> system \<Rightarrow> result" where
  "transform_end rec i d s =
     and_then
       (case source (obj s i) of
          None \<Rightarrow> Inr s
        | Some src \<Rightarrow>
            (let s1 = upd src (\<lambda>ob. (removeListener ''readable'' DestinationFillBuffer
                        (removeListener ''error'' DestinationEmitError
                          (removeListener ''end'' DestinationCloseWhenDone ob)))\<lparr>destination := None\<rparr>) s
             in if destroySource (obj s1 i) then rec (DestroyIt src None) s1 else Inr s1))
       (base_end rec i d)"

definition cloned_end :: "exec \<Rightarrow> nat \<Rightarrow> bool \<Rightarrow> system \<Rightarrow> result" where
  "cloned_end rec i d s =
     base_end rec i d
       (case source (obj s i) of
          None \<Rightarrow> s
        | Some src \<Rightarrow>
            (case destination (obj s src) of
               Some (DestHistory h) \<Rightarrow> unregister h i s
             | _ \<Rightarrow> s))"

definition sys_end :: "exec \<Rightarrow> nat \<Rightarrow> bool \<Rightarrow> system \<Rightarrow> result" where
  "sys_end rec i d s =
     (case cls (obj s i) of
        SimpleTransformIteratorC \<Rightarrow> transform_end rec i d s
      | ClonedIteratorC \<Rightarrow> cloned_end rec i d s
      | _ \<Rightarrow> base_end rec i d s)"

definition sys_destroy :: "exec \<Rightarrow> nat \<Rightarrow> string option \<Rightarrow> system \<Rightarrow> result" where
  "sys_destroy rec i cause s =
     (if \<not> is_done (obj s i) then
        (let s1 = (case cls (obj s i) of
                     ArrayIteratorC \<Rightarrow> upd i (\<lambda>ob. ob\<lparr>array_buffer := None\<rparr>) s
                   | SimpleTransformIteratorC \<Rightarrow> upd i (\<lambda>ob. ob\<lparr>buffer := []\<rparr>) s
                   | ClonedIteratorC \<Rightarrow> upd i (\<lambda>ob. ob\<lparr>buffer := []\<rparr>) s
                   | _ \<Rightarrow> s)
         in and_then (case cause of Some c \<Rightarrow> sys_emit rec i (Error c) s1 | None \<Rightarrow> Inr s1)
              (rec (EndOf i True)))
      else Inr s)"

text \<open>The closures of \<^verbatim>\<open>HistoryReader\<close>\<close>

fun for_each :: "(nat \<Rightarrow> system \<Rightarrow> result) \<Rightarrow> nat list \<Rightarrow> system \<Rightarrow> result" where
  "for_each f [] s = Inr s"
| "for_each f (c # cs) s = and_then (f c s) (for_each f cs)"

definition history_listener :: "exec \<Rightarrow> nat \<Rightarrow> (nat \<Rightarrow> system \<Rightarrow> result) \<Rightarrow> system \<Rightarrow> result" where
  "history_listener rec h f s =
     (case h_clones (reader s h) of
        None \<Rightarrow> Inl ''TypeError: this._clones is not iterable''
      | Some cs \<Rightarrow> for_each f cs s)"

definition sys_history_end :: "exec \<Rightarrow> nat \<Rightarrow> system \<Rightarrow> result" where
  "sys_history_end rec h s =
     and_then
       (history_listener rec h
          (\<lambda>c s1. if readPosition (obj s1 c) = length (h_history (reader s1 h))
                   then rec (CloseIt c) s1 else Inr s1) s)
       (\<lambda>s1. Inr (upd (h_source (reader s1 h))
                (\<lambda>ob. removeListener ''readable'' (HistorySetReadable h)
                        (removeListener ''error'' (HistoryEmitError h)
                          (removeListener ''end'' (HistoryEnd h) ob)))
                (upd_reader h (\<lambda>r. r\<lparr>h_clones := None\<rparr>) s1)))"

subsection \<open>Listeners and deferred closures\<close>

definition with_destination :: "nat \<Rightarrow> system \<Rightarrow> (nat \<Rightarrow> result) \<Rightarrow> result" where
  "with_destination i s f =
     (case destination (obj s i) of
        Some (DestTransform t) \<Rightarrow> f t
      | _ \<Rightarrow> Inl ''TypeError: no such invoke on this._destination'')"

definition run_listener :: "exec \<Rightarrow> listener \<Rightarrow> nat \<Rightarrow> jsnum event \<Rightarrow> system \<Rightarrow> result" where
  "run_listener rec l i ev s =
     (case l of
        WaitForDataListener \<Rightarrow>
          (case ev of NewListener n \<Rightarrow> waitForDataListener rec i n s | _ \<Rightarrow> Inr s)
      | EmitData \<Rightarrow> emitData rec i s
      | DestinationCloseWhenDone \<Rightarrow> with_destination i s (\<lambda>t. rec (CloseIt t) s)
      | DestinationFillBuffer \<Rightarrow> with_destination i s (\<lambda>t. rec (FillBuffer t) s)
      | DestinationEmitError \<Rightarrow> with_destination i s (\<lambda>t. sys_emit rec t ev s)
      | InsertPush t \<Rightarrow> (case ev of Data x \<Rightarrow> Inr (invoke t (push x) s) | _ \<Rightarrow> Inr s)
      | InsertEnd t ph \<Rightarrow> insert_end t ph i s
      | HistorySetReadable h \<Rightarrow> history_listener rec h (\<lambda>c s1. Inr (invoke c (set_readable True) s1)) s
      | HistoryEmitError h \<Rightarrow> history_listener rec h (\<lambda>c s1. sys_emit rec c ev s1) s
      | HistoryEnd h \<Rightarrow> sys_history_end rec h s
      | External k \<Rightarrow> Inr (s\<lparr>received := received s @ [(k, i, ev)]\<rparr>))"

definition run_task :: "exec \<Rightarrow> nat \<Rightarrow> unit task \<Rightarrow> system \<Rightarrow> result" where
  "run_task rec i t s =
     (case t of
        TEmitEnd \<Rightarrow> sys_emit rec i End s
      | TEnd \<Rightarrow> rec (EndOf i False) s
      | TEmitReadable \<Rightarrow> sys_emit rec i Readable s
      | TEmitData \<Rightarrow> emitData rec i s
      | TInit autoStart \<Rightarrow> sys_init rec i autoStart s
      | TFillBuffer \<Rightarrow> rec (FillBuffer i) (upd i (\<lambda>ob. ob\<lparr>reading := False\<rparr>) s)
      | TNext count \<Rightarrow> readAndTransformSimple rec i count s
      | _ \<Rightarrow> invoke_r i (\<lambda>ob. case run_base_task t ob of Some r \<Rightarrow> r | None \<Rightarrow> Inr ob) s)"

definition body :: "exec \<Rightarrow> exec" where
  "body rec c s =
     (case c of
        Listener l i ev \<Rightarrow> run_listener rec l i ev s
      | Read i \<Rightarrow> sys_read rec i s
      | CloseIt i \<Rightarrow> sys_close rec i s
      | DestroyIt i cause \<Rightarrow> sys_destroy rec i cause s
      | EndOf i d \<Rightarrow> sys_end rec i d s
      | FillBuffer i \<Rightarrow> sys_fillBuffer rec i s
      | EmitDataLoop i \<Rightarrow> emitData_loop rec i s
      | ReadLoop i count \<Rightarrow> read_loop rec i count s
      | RunTask i t \<Rightarrow> run_task rec i t s)"

text \<open>
  Nested calls are bounded by a depth, the deferred closures run by a count; running out
  of depth is an error, running out of count leaves closures in the queue.
\<close>

primrec exec :: "nat \<Rightarrow> exec" where
  "exec 0 = (\<lambda>c s. Inl ''stack depth exceeded'')"
| "exec (Suc n) = body (exec n)"

definition depth :: nat where "depth = 64"

primrec run :: "nat \<Rightarrow> system \<Rightarrow> result" where
  "run 0 s = Inr s"
| "run (Suc n) s =
     (case queue s of
        [] \<Rightarrow> Inr s
      | (i, t) # ts \<Rightarrow> and_then (exec depth (RunTask i t) (s\<lparr>queue := ts\<rparr>)) (run n))"


subsection \<open>Constructors and operators\<close>

definition empty_system :: system where
  "empty_system = \<lparr>objs = [], readers = [], queue = [], received = [], ret = None\<rparr>"

definition new_object :: "cls \<Rightarrow> nat \<Rightarrow> sobj" where
  "new_object c initialState =
     \<lparr>state = initialState, readable_flag = False,
      events = (\<lambda>n. []) (''newListener'' := [WaitForDataListener]),
      properties = None, propertyCallbacks = None,
      emitted = [], called = [], microtasks = [],
      buffer = [], maxBufferSize = 4, reading = True, pushedCount = 0, readPosition = 0,
      destroySource = True, optional = False, offset = 0, limit = None,
      filter_fn = (\<lambda>x. True), map_fn = None, transform_fn = Some (\<lambda>x. [x]),
      cls = c, array_buffer = None, int_next = NaN, int_step = NaN, int_last = NaN,
      source = None, destination = None, prepender = None, appender = None\<rparr>"

definition alloc :: "sobj \<Rightarrow> system \<Rightarrow> nat \<times> system" where
  "alloc ob s = (length (objs s), commit (length (objs s)) (s\<lparr>objs := objs s @ [ob]\<rparr>))"

definition new_ArrayIterator :: "jsnum list \<Rightarrow> system \<Rightarrow> nat \<times> system" where
  "new_ArrayIterator items s =
     alloc (if items = [] then close (new_object ArrayIteratorC OPEN)
            else set_readable True ((new_object ArrayIteratorC OPEN)\<lparr>array_buffer := Some items\<rparr>)) s"

definition fromArray :: "jsnum list \<Rightarrow> system \<Rightarrow> nat \<times> system" where
  "fromArray items s = new_ArrayIterator items s"

definition new_IntegerIterator :: "jsnum option \<Rightarrow> jsnum option \<Rightarrow> jsnum option \<Rightarrow> system \<Rightarrow> nat \<times> system" where
  "new_IntegerIterator start_opt step_opt end_opt s =
     (let start0 = (case start_opt of None \<Rightarrow> Finite 0 | Some x \<Rightarrow> x);
          start = (if js_isFinite start0 then js_Math_trunc start0 else start0);
          step0 = (case step_opt of None \<Rightarrow> Finite 1 | Some x \<Rightarrow> x);
          step = (if js_isFinite step0 then js_Math_trunc step0 else step0);
          ascending = (\<not> js_less step (Finite 0) \<and> step \<noteq> NaN);
          direction = (if ascending then PosInfinity else NegInfinity);
          last = (case end_opt of
                    None \<Rightarrow> direction
                  | Some e \<Rightarrow> if js_isFinite e then js_Math_trunc e
                              else if e \<noteq> js_neg direction then direction else e);
          ob = (new_object IntegerIteratorC OPEN)\<lparr>int_next := start, int_step := step, int_last := last\<rparr>
      in alloc (if \<not> js_isFinite start \<or> (if ascending then js_less last start else js_less start last)
                then close ob else set_readable True ob) s)"

record transform_options =
  opt_maxBufferSize :: "jsnum option"
  opt_autoStart :: "bool option"
  opt_optional :: bool
  opt_destroySource :: "bool option"
  opt_offset :: "jsnum option"
  opt_limit :: "jsnum option"
  opt_filter :: "(jsnum \<Rightarrow> bool) option"
  opt_map :: "(jsnum \<Rightarrow> jsnum option) option"
  opt_transform :: "(jsnum \<Rightarrow> jsnum list) option"
  opt_prepend :: "(jsnum list + nat) option"
  opt_append :: "(jsnum list + nat) option"

definition no_options :: transform_options where
  "no_options =
     \<lparr>opt_maxBufferSize = None, opt_autoStart = None, opt_optional = False,
      opt_destroySource = None, opt_offset = None, opt_limit = None, opt_filter = None,
      opt_map = None, opt_transform = None, opt_prepend = None, opt_append = None\<rparr>"

text \<open>The constructor of \<^verbatim>\<open>BufferedIterator\<close>\<close>

definition new_Buffered :: "cls \<Rightarrow> jsnum option \<Rightarrow> bool option \<Rightarrow> system \<Rightarrow> nat \<times> system" where
  "new_Buffered c size_opt autoStart_opt s =
     (let ob = new_object c INIT;
          m = coerce_maxBufferSize (case size_opt of None \<Rightarrow> Finite 4 | Some x \<Rightarrow> x);
          ob1 = (if maxBufferSize ob \<noteq> m then ob\<lparr>maxBufferSize := m\<rparr> else ob)
      in alloc (queueMicrotask (TInit (case autoStart_opt of None \<Rightarrow> True | Some a \<Rightarrow> a)) ob1) s)"

text \<open>The setter of \<^verbatim>\<open>source\<close> in \<^verbatim>\<open>TransformIterator\<close>\<close>

definition set_source :: "exec \<Rightarrow> nat \<Rightarrow> nat \<Rightarrow> system \<Rightarrow> result" where
  "set_source rec i src s =
     (if source (obj s i) \<noteq> None then Inl ''The source cannot be changed after it has been set''
      else if destination (obj s src) \<noteq> None then Inl ''The source already has a destination''
      else
        (let s1 = upd src (\<lambda>ob. ob\<lparr>destination := Some (DestTransform i)\<rparr>)
                    (upd i (\<lambda>ob. ob\<lparr>source := Some src\<rparr>) s)
         in if ended (obj s1 src) then rec (CloseIt i) s1
            else and_then (and_then (on rec src ''end'' DestinationCloseWhenDone s1)
                             (on rec src ''readable'' DestinationFillBuffer))
                   (on rec src ''error'' DestinationEmitError)))"

definition inserter_of :: "(jsnum list + nat) option \<Rightarrow> system \<Rightarrow> nat option \<times> system" where
  "inserter_of x s =
     (case x of
        None \<Rightarrow> (None, s)
      | Some (Inl items) \<Rightarrow> (case fromArray items s of (a, s1) \<Rightarrow> (Some a, s1))
      | Some (Inr it) \<Rightarrow> (Some it, s))"

definition new_SimpleTransformIterator :: "nat \<Rightarrow> transform_options \<Rightarrow> system \<Rightarrow> string + nat \<times> system" where
  "new_SimpleTransformIterator src opts s =
     (case new_Buffered SimpleTransformIteratorC (opt_maxBufferSize opts) (opt_autoStart opts) s of
        (i, s1) \<Rightarrow>
          (case set_source (exec depth) i src s1 of
             Inl e \<Rightarrow> Inl e
           | Inr s2 \<Rightarrow>
               (let s3 = upd i (\<lambda>ob. ob\<lparr>optional := opt_optional opts,
                                        destroySource := (opt_destroySource opts \<noteq> Some False)\<rparr>) s2;
                    s4 = (if opt_offset opts = Some PosInfinity \<or> opt_limit opts = Some NegInfinity
                          then upd i (\<lambda>ob. ob\<lparr>limit := Some 0\<rparr>) s3
                          else upd i (\<lambda>ob. ob
                                 \<lparr>offset := (case opt_offset opts of
                                               Some (Finite q) \<Rightarrow> max (js_trunc q) 0 | _ \<Rightarrow> offset ob),
                                  limit := (case opt_limit opts of
                                              Some (Finite q) \<Rightarrow> Some (max (js_trunc q) 0) | _ \<Rightarrow> limit ob),
                                  filter_fn := (case opt_filter opts of Some f \<Rightarrow> f | None \<Rightarrow> filter_fn ob),
                                  map_fn := (case opt_map opts of Some f \<Rightarrow> Some f | None \<Rightarrow> map_fn ob),
                                  transform_fn := opt_transform opts\<rparr>) s3)
                in case inserter_of (opt_prepend opts) s4 of
                     (p, s5) \<Rightarrow>
                       (case inserter_of (opt_append opts) (upd i (\<lambda>ob. ob\<lparr>prepender := p\<rparr>) s5) of
                          (a, s6) \<Rightarrow> Inr (i, upd i (\<lambda>ob. ob\<lparr>appender := a\<rparr>) s6)))))"

definition transform :: "nat \<Rightarrow> transform_options \<Rightarrow> system \<Rightarrow> string + nat \<times> system" where
  "transform i opts s = new_SimpleTransformIterator i opts s"

definition skip :: "nat \<Rightarrow> jsnum \<Rightarrow> system \<Rightarrow> string + nat \<times> system" where
  "skip i n s = transform i (no_options\<lparr>opt_offset := Some n\<rparr>) s"

definition take_items :: "nat \<Rightarrow> jsnum \<Rightarrow> system \<Rightarrow> string + nat \<times> system" where
  "take_items i n s = transform i (no_options\<lparr>opt_limit := Some n\<rparr>) s"

definition range_op :: "nat \<Rightarrow> jsnum \<Rightarrow> jsnum \<Rightarrow> system \<Rightarrow> string + nat \<times> system" where
  "range_op i start end s =
     transform i (no_options\<lparr>opt_offset := Some start,
        opt_limit := Some (js_Math_max (js_add (js_sub end start) (Finite 1)) (Finite 0))\<rparr>) s"

text \<open>A listener for \<^verbatim>\<open>data\<close> and one for \<^verbatim>\<open>end\<close> are attached, and the queue is run.\<close>

definition subscribe :: "nat \<Rightarrow> nat \<Rightarrow> system \<Rightarrow> result" where
  "subscribe k i s =
     and_then (on (exec depth) i ''data'' (External k) s) (on (exec depth) i ''end'' (External (Suc k)))"

text \<open>
  The third scenario of the specification:
  \<^verbatim>\<open>fromArray([1,2,3]).transform({offset:1, limit:1, prepend:[9], append:[8]})\<close>,
  read in flow mode.
\<close>

definition pipeline3 :: result where
  "pipeline3 =
     (case fromArray [Finite 1, Finite 2, Finite 3] empty_system of
        (a, s1) \<Rightarrow>
          (case transform a (no_options\<lparr>opt_offset := Some (Finite 1), opt_limit := Some (Finite 1),
                   opt_prepend := Some (Inl [Finite 9]), opt_append := Some (Inl [Finite 8])\<rparr>) s1 of
             Inl e \<Rightarrow> Inl e
           | Inr (t, s2) \<Rightarrow> subscribe 0 t s2))"

definition scenario3 :: result where
  "scenario3 = and_then pipeline3 (run 100)"

definition received_by :: "nat \<Rightarrow> result \<Rightarrow> jsnum event list" where
  "received_by k r =
     (case r of Inl e \<Rightarrow> [] | Inr s \<Rightarrow> map (\<lambda>(l, i, ev). ev) (filter (\<lambda>(l, i, ev). l = k \<or> l = Suc k) (received s)))"

section \<open>A source and its clones\<close>

text \<open>
  A source as its clones see it: \<^verbatim>\<open>read()\<close>, the getter \<^verbatim>\<open>ended\<close>, and the value
  \<^verbatim>\<open>undefined\<close> of the item type, which fills the holes of an array written beyond its
  end.
\<close>

record ('a, 's) source_view =
  src_read :: "'s \<Rightarrow> 'a option \<times> 's"
  src_ended :: "'s \<Rightarrow> bool"
  src_undefined :: 'a

text \<open>
  A source with its \<^verbatim>\<open>HistoryReader\<close> (\<open>g_history\<close> is \<^verbatim>\<open>_history\<close>, \<open>g_registered\<close> is
  \<^verbatim>\<open>_clones\<close>) and the clones made of it so far, which are known by their numbers.
\<close>

record ('a, 's, 'v) clone_group =
  g_source :: 's
  g_history :: "'a list"
  g_registered :: "nat list option"
  g_clones :: "('a, 'v) cloned_iterator list"

definition upd_clone :: "nat \<Rightarrow> (('a, 'v) cloned_iterator \<Rightarrow> ('a, 'v) cloned_iterator) \<Rightarrow> ('a, 's, 'v) clone_group \<Rightarrow> ('a, 's, 'v) clone_group" where
  "upd_clone i f g = g\<lparr>g_clones := (g_clones g)[i := f (g_clones g ! i)]\<rparr>"

definition new_HistoryReader :: "('a, 's) source_view \<Rightarrow> 's \<Rightarrow> ('a, 's, 'v) clone_group" where
  "new_HistoryReader S src =
     \<lparr>g_source = src, g_history = [],
      g_registered = (if \<not> src_ended S src then Some [] else None),
      g_clones = []\<rparr>"

definition history_register :: "nat \<Rightarrow> ('a, 's, 'v) clone_group \<Rightarrow> ('a, 's, 'v) clone_group" where
  "history_register c g =
     (case g_registered g of None \<Rightarrow> g | Some cs \<Rightarrow> g\<lparr>g_registered := Some (cs @ [c])\<rparr>)"

definition history_unregister :: "nat \<Rightarrow> ('a, 's, 'v) clone_group \<Rightarrow> ('a, 's, 'v) clone_group" where
  "history_unregister c g =
     (case g_registered g of None \<Rightarrow> g
      | Some cs \<Rightarrow> g\<lparr>g_registered := Some (filter (\<lambda>x. x \<noteq> c) cs)\<rparr>)"

definition history_readAt :: "('a, 's) source_view \<Rightarrow> nat \<Rightarrow> ('a, 's, 'v) clone_group \<Rightarrow> 'a option \<times> ('a, 's, 'v) clone_group" where
  "history_readAt S pos g =
     (if pos < length (g_history g) then (Some (g_history g ! pos), g)
      else if \<not> src_ended S (g_source g) then
        (case src_read S (g_source g) of
           (Some item, s1) \<Rightarrow>
             (Some item,
              g\<lparr>g_source := s1,
                g_history := g_history g
                  @ replicate (pos - length (g_history g)) (src_undefined S) @ [item]\<rparr>)
         | (None, s1) \<Rightarrow> (None, g\<lparr>g_source := s1\<rparr>))
      else (None, g))"

definition history_endsAt :: "('a, 's) source_view \<Rightarrow> nat \<Rightarrow> ('a, 's, 'v) clone_group \<Rightarrow> bool" where
  "history_endsAt S pos g = (src_ended S (g_source g) \<and> length (g_history g) = pos)"

text \<open>\<^verbatim>\<open>ClonedIterator.read\<close>, and one turn of the loop of \<^verbatim>\<open>emitData\<close> on a clone.\<close>

definition clone_read :: "('a, 's) source_view \<Rightarrow> nat \<Rightarrow> ('a, 's, 'v) clone_group \<Rightarrow> 'a option \<times> ('a, 's, 'v) clone_group" where
  "clone_read S i g =
     (if \<not> is_done (g_clones g ! i) then
        (case history_readAt S (readPosition (g_clones g ! i)) g of
           (item, g1) \<Rightarrow>
             (let g2 = (case item of
                          Some x \<Rightarrow> upd_clone i (\<lambda>c. c\<lparr>readPosition := readPosition c + 1\<rparr>) g1
                        | None \<Rightarrow> upd_clone i (set_readable False) g1);
                  g3 = (if history_endsAt S (readPosition (g_clones g2 ! i)) g2
                        then upd_clone i close g2 else g2)
              in (item, g3)))
      else (None, g))"

definition emitData_step :: "('a, 's) source_view \<Rightarrow> nat \<Rightarrow> ('a, 's, 'v) clone_group \<Rightarrow> ('a, 's, 'v) clone_group" where
  "emitData_step S i g =
     (case clone_read S i g of
        (Some x, g1) \<Rightarrow> upd_clone i (emit (Data x)) g1
      | (None, g1) \<Rightarrow> g1)"

text \<open>
  The constructor of \<^verbatim>\<open>ClonedIterator\<close> on a source that has its history: the
  constructor of \<^verbatim>\<open>BufferedIterator\<close> with \<^verbatim>\<open>autoStart: false\<close>, the setter of
  \<^verbatim>\<open>source\<close>, and the two assignments that follow.
\<close>

definition new_ClonedIterator :: "('a, 's) source_view \<Rightarrow> ('a, 's, 'v) clone_group \<Rightarrow> ('a, 's, 'v) clone_group" where
  "new_ClonedIterator S g =
     (let i = length (g_clones g);
          c = buffered_iterator.extend (new_BufferedIterator (Finite 4) False) (cloned_iterator.fields 0);
          g1 = g\<lparr>g_clones := g_clones g @ [c]\<rparr>;
          g2 = (if history_endsAt S 0 g1 then upd_clone i close g1
                else (case history_readAt S 0 (history_register i g1) of
                        (Some x, g3) \<Rightarrow> upd_clone i (set_readable True) g3
                      | (None, g3) \<Rightarrow> g3))
      in upd_clone i (\<lambda>c. c\<lparr>readPosition := 0, reading := False\<rparr>) g2)"

text \<open>The listeners of the history on its source, for \<^verbatim>\<open>end\<close> and \<^verbatim>\<open>readable\<close>.\<close>

definition history_end :: "nat list \<Rightarrow> ('a, 's, 'v) clone_group \<Rightarrow> ('a, 's, 'v) clone_group" where
  "history_end cs g =
     (fold (\<lambda>c g1. if readPosition (g_clones g1 ! c) = length (g_history g1)
                    then upd_clone c close g1 else g1) cs g)\<lparr>g_registered := None\<rparr>"

definition history_setReadable :: "nat list \<Rightarrow> ('a, 's, 'v) clone_group \<Rightarrow> ('a, 's, 'v) clone_group" where
  "history_setReadable cs g = fold (\<lambda>c. upd_clone c (set_readable True)) cs g"

text \<open>
  \<^verbatim>\<open>_end\<close> and \<^verbatim>\<open>destroy\<close> of a clone, and its deferred closures. In \<^verbatim>\<open>destroy\<close>,
  \<^verbatim>\<open>_destroy\<close> empties the buffer and calls back; when \<^verbatim>\<open>emit('error', cause)\<close> throws,
  for want of a listener, the clone is left as it is at that moment.
\<close>

definition clone_end :: "bool \<Rightarrow> nat \<Rightarrow> ('a, 's, 'v) clone_group \<Rightarrow> ('a, 's, 'v) clone_group" where
  "clone_end d i g = upd_clone i (end_it d) (history_unregister i g)"

definition clone_destroy :: "string option \<Rightarrow> nat \<Rightarrow> ('a, 's, 'v) clone_group \<Rightarrow> ('a, 's, 'v) clone_group" where
  "clone_destroy cause i g =
     (if \<not> is_done (g_clones g ! i) then
        (let g1 = upd_clone i (\<lambda>c. c\<lparr>buffer := []\<rparr>) g in
         case cause of
           None \<Rightarrow> clone_end True i g1
         | Some e \<Rightarrow>
             (case emit_error e (g_clones g1 ! i) of
                Inl x \<Rightarrow> g1
              | Inr c1 \<Rightarrow> clone_end True i (upd_clone i (\<lambda>c. c1) g1)))
      else g)"

definition clone_task :: "nat \<Rightarrow> ('a, 's, 'v) clone_group \<Rightarrow> ('a, 's, 'v) clone_group" where
  "clone_task i g =
     (case microtasks (g_clones g ! i) of
        [] \<Rightarrow> g
      | t # ts \<Rightarrow>
          (let g1 = upd_clone i (\<lambda>c. c\<lparr>microtasks := ts\<rparr>) g in
           case t of
             TEnd \<Rightarrow> clone_end False i g1
           | TEmitReadable \<Rightarrow> upd_clone i (emit Readable) g1
           | _ \<Rightarrow> g1))"

text \<open>
  What can happen to a source and its clones. The source changes on its own
  (\<open>SourceChanges f\<close>); when such a change takes it into \<open>ENDED\<close> it emits \<^verbatim>\<open>end\<close>, and
  it may emit \<^verbatim>\<open>readable\<close>; the history listens to both as long as it keeps its
  registry. \<open>CloneOn i w l\<close> attaches a listener from outside to clone \<open>i\<close>.
\<close>

datatype 's group_op =
    NewClone
  | EmitDataStep nat
  | RunCloneTask nat
  | DestroyClone nat "string option"
  | CloneOn nat watched nat
  | SourceChanges "'s \<Rightarrow> 's"
  | SourceReadable

fun group_step :: "('a, 's) source_view \<Rightarrow> 's group_op \<Rightarrow> ('a, 's, 'v) clone_group \<Rightarrow> ('a, 's, 'v) clone_group" where
  "group_step S NewClone g = new_ClonedIterator S g"
| "group_step S (EmitDataStep i) g = (if i < length (g_clones g) then emitData_step S i g else g)"
| "group_step S (RunCloneTask i) g = (if i < length (g_clones g) then clone_task i g else g)"
| "group_step S (DestroyClone i cause) g = (if i < length (g_clones g) then clone_destroy cause i g else g)"
| "group_step S (CloneOn i w l) g = (if i < length (g_clones g) then upd_clone i (on_outside w l) g else g)"
| "group_step S (SourceChanges f) g =
     (let g1 = g\<lparr>g_source := f (g_source g)\<rparr> in
      if src_ended S (g_source g1) \<and> \<not> src_ended S (g_source g) then
        (case g_registered g1 of Some cs \<Rightarrow> history_end cs g1 | None \<Rightarrow> g1)
      else g1)"
| "group_step S SourceReadable g =
     (case g_registered g of Some cs \<Rightarrow> history_setReadable cs g | None \<Rightarrow> g)"

fun group_run :: "('a, 's) source_view \<Rightarrow> 's group_op list \<Rightarrow> ('a, 's, 'v) clone_group \<Rightarrow> ('a, 's, 'v) clone_group" where
  "group_run S [] g = g"
| "group_run S (x # xs) g = group_run S xs (group_step S x g)"

text \<open>
  The source keeps the state \<open>ENDED\<close>: neither reading it nor a change of its own
  takes it out of it.
\<close>

fun keeps_ended :: "('a, 's) source_view \<Rightarrow> 's group_op \<Rightarrow> bool" where
  "keeps_ended S (SourceChanges f) = (\<forall>s. src_ended S s \<longrightarrow> src_ended S (f s))"
| "keeps_ended S x = True"

definition ended_for_good :: "('a, 's) source_view \<Rightarrow> 's group_op list \<Rightarrow> bool" where
  "ended_for_good S ops =
     ((\<forall>s. src_ended S s \<longrightarrow> src_ended S (snd (src_read S s))) \<and> list_all (keeps_ended S) ops)"

text \<open>The items a clone has emitted through \<^verbatim>\<open>data\<close>, and a clone that was read to its end.\<close>

fun data_items :: "'a event list \<Rightarrow> 'a list" where
  "data_items [] = []"
| "data_items (Data x # es) = x # data_items es"
| "data_items (e # es) = data_items es"

definition completed :: "('a, 'v) cloned_iterator \<Rightarrow> bool" where
  "completed c = (is_closed c \<and> \<not> destroyed c)"


text \<open>
  What holds of every clone at every moment: its position lies within the history, it
  has emitted the items before its position, it is closed without being destroyed only
  when the source has ended and it stands at the end of the history, and its deferred
  \<^verbatim>\<open>_end\<close> waits only when it is closed.
\<close>

definition clone_ok :: "('a, 's) source_view \<Rightarrow> 's \<Rightarrow> 'a list \<Rightarrow> ('a, 'v) cloned_iterator \<Rightarrow> bool" where
  "clone_ok S src hist c =
     (readPosition c \<le> length hist
      \<and> data_items (emitted c) = take (readPosition c) hist
      \<and> (completed c \<longrightarrow> src_ended S src \<and> readPosition c = length hist)
      \<and> (TEnd \<in> set (microtasks c) \<longrightarrow> is_closed c))"

definition group_inv :: "('a, 's) source_view \<Rightarrow> ('a, 's, 'v) clone_group \<Rightarrow> bool" where
  "group_inv S g = (\<forall>i < length (g_clones g). clone_ok S (g_source g) (g_history g) (g_clones g ! i))"

text \<open>
  A source that reads from a list and ends when told to, and a run with two clones of it,
  the second made after the first has read two items.
\<close>

definition list_source :: "(nat, nat list \<times> bool) source_view" where
  "list_source =
     \<lparr>src_read = (\<lambda>(xs, e). case xs of [] \<Rightarrow> (None, ([], e)) | x # r \<Rightarrow> (Some x, (r, e))),
      src_ended = snd, src_undefined = 0\<rparr>"

definition two_clones :: "(nat, nat list \<times> bool, unit) clone_group" where
  "two_clones =
     group_run list_source
       [EmitDataStep 0, EmitDataStep 1, SourceChanges (\<lambda>(xs, e). (xs, True)),
        EmitDataStep 1, EmitDataStep 1, EmitDataStep 1]
       (group_step list_source NewClone
          (group_run list_source [NewClone, EmitDataStep 0, EmitDataStep 0]
             (new_HistoryReader list_source ([1, 2, 3], False))))"

section \<open>Properties of the state machine\<close>

lemma changeState_valid: "fst (changeState n a it) = (state it < n \<and> state it < ENDED)"
  by (simp add: changeState_def Let_def)

lemma changeState_state:
  "state (snd (changeState n a it)) = (if state it < n \<and> state it < ENDED then n else state it)"
  by (simp add: changeState_def Let_def emit_def queueMicrotask_def)

lemma end_it_state:
  "state (end_it d it) = state (snd (changeState (if d then DESTROYED else ENDED) False it))"
  by (cases "changeState (if d then DESTROYED else ENDED) False it")
     (auto simp: end_it_def removeAllListeners_def split: bool.splits)

lemma close_state: "state (close it) = state (snd (changeState CLOSED False it))"
  by (cases "changeState CLOSED False it")
     (auto simp: close_def endAsync_def queueMicrotask_def split: bool.splits)

lemma destroy_const_state:
  "state (step_op (Destroy cause error) it) =
     (if state it < ENDED \<and> ((cause = None \<and> error = None) \<or> events it ''error'' \<noteq> [])
      then DESTROYED else state it)"
  by (auto simp: destroy_def destroy_callback_def calls_back_def emit_error_def is_done_def
        end_it_state changeState_state emit_def Let_def state_defs split: option.splits)

lemma on_outside_state: "state (on_outside w l it) = state it"
  by (simp add: on_outside_def Let_def emit_def)

lemma run_microtask_state:
  "state (run_microtask it) = state it \<or>
   (state it < ENDED \<and> state (run_microtask it) = ENDED)"
  by (auto simp: run_microtask_def run_base_task_def emit_def end_it_state changeState_state
        split: list.splits task.splits)

lemma step_op_state:
  "state (step_op x it) = state it \<or> (state it < state (step_op x it) \<and> state it < ENDED)"
proof (cases x)
  case RunMicrotask
  then show ?thesis using run_microtask_state [of it] by auto
qed (auto simp: close_state end_it_state destroy_const_state changeState_state endAsync_def
       queueMicrotask_def set_readable_def on_outside_state Let_def state_defs
       simp del: step_op.simps(2))

lemma states_seen_hd: "states_seen ops it \<noteq> [] \<and> hd (states_seen ops it) = state it"
  by (cases ops) auto

lemma states_seen_sorted: "sorted (states_seen ops it)"
proof (induction ops arbitrary: it)
  case Nil
  then show ?case by simp
next
  case (Cons x xs)
  have "state it \<le> state (step_op x it)" using step_op_state [of x it] by auto
  moreover have "\<forall>s \<in> set (states_seen xs (step_op x it)). state (step_op x it) \<le> s"
    using Cons [of "step_op x it"] states_seen_hd [of xs "step_op x it"]
    by (cases "states_seen xs (step_op x it)") auto
  ultimately show ?case using Cons [of "step_op x it"] by fastforce
qed

lemma strict_sorted_subseq:
  fixes xs ys :: "nat list"
  assumes "sorted_wrt (<) xs" "sorted_wrt (<) ys" "set xs \<subseteq> set ys"
  shows "subseq xs ys"
proof -
  let ?f = "filter (\<lambda>y. y \<in> set xs) ys"
  have "sorted ?f" "distinct ?f" using assms(2) by (auto simp: strict_sorted_iff sorted_wrt_filter)
  moreover have "set ?f = set xs" using assms(3) by auto
  moreover have "sorted xs" "distinct xs" using assms(1) by (auto simp: strict_sorted_iff)
  ultimately have "?f = xs" by (metis sorted_distinct_set_unique)
  then show ?thesis by (metis subseq_filter_left)
qed

lemma states_seen_in_chain:
  "state it \<in> set state_chain \<Longrightarrow> set (requested_states ops) \<subseteq> set state_chain
   \<Longrightarrow> set (states_seen ops it) \<subseteq> set state_chain"
proof (induction ops arbitrary: it)
  case Nil
  then show ?case by simp
next
  case (Cons x xs)
  have "state (step_op x it) \<in> set state_chain"
  proof (cases x)
    case (ChangeState n a)
    then show ?thesis using Cons.prems by (auto simp: changeState_state)
  next
    case RunMicrotask
    then show ?thesis using Cons.prems(1) run_microtask_state [of it]
      by (auto simp: state_chain_def)
  next
    case (Destroy cause error)
    then show ?thesis using Cons.prems(1)
      by (auto simp: destroy_const_state state_chain_def simp del: step_op.simps(2))
  qed (use Cons.prems(1) in \<open>auto simp: close_state end_it_state changeState_state endAsync_def
       queueMicrotask_def set_readable_def on_outside_state Let_def state_chain_def\<close>)
  moreover have "set (requested_states xs) \<subseteq> set state_chain"
    using Cons.prems(2) by (cases x) auto
  ultimately show ?case using Cons by auto
qed

lemma run_ops_done: "ENDED \<le> state it \<Longrightarrow> states_seen ops it = replicate (Suc (length ops)) (state it)"
proof (induction ops arbitrary: it)
  case Nil
  then show ?case by simp
next
  case (Cons x xs)
  have "state (step_op x it) = state it" using step_op_state [of x it] Cons.prems by auto
  then show ?case using Cons by auto
qed


lemma sorted_remdups_adj_strict: "sorted (xs :: nat list) \<Longrightarrow> sorted_wrt (<) (remdups_adj xs)"
  by (induction xs rule: remdups_adj.induct) (auto simp: order.strict_iff_order)

lemma state_chain_sorted: "sorted_wrt (<) state_chain"
  by (simp add: state_chain_def state_defs)

text \<open>
  C1: \<^verbatim>\<open>_changeState(newState)\<close> changes the state and returns true exactly when
  \<open>newState\<close> is above the current state and the current state is below \<open>ENDED\<close>.
  Hence the states an iterator goes through, repetitions dropped, increase strictly; when
  only the six state identifiers are used they form a subsequence of
  \<open>INIT, OPEN, CLOSING, CLOSED, ENDED, DESTROYED\<close>; and from \<open>ENDED\<close> or \<open>DESTROYED\<close> on
  the state never changes again.
\<close>

theorem changeState_forward_only:
  "(fst (changeState n a it) \<longleftrightarrow> state it < n \<and> state it < ENDED)
   \<and> state (snd (changeState n a it)) = (if state it < n \<and> state it < ENDED then n else state it)
   \<and> sorted_wrt (<) (remdups_adj (states_seen ops it))
   \<and> (state it \<in> set state_chain \<and> set (requested_states ops) \<subseteq> set state_chain
        \<longrightarrow> subseq (remdups_adj (states_seen ops it)) state_chain)
   \<and> (ENDED \<le> state it \<longrightarrow> remdups_adj (states_seen ops it) = [state it])"
proof -
  have s: "sorted_wrt (<) (remdups_adj (states_seen ops it))"
    using states_seen_sorted [of ops it] by (rule sorted_remdups_adj_strict)
  have c: "subseq (remdups_adj (states_seen ops it)) state_chain"
    if "state it \<in> set state_chain" "set (requested_states ops) \<subseteq> set state_chain"
    using strict_sorted_subseq [OF s state_chain_sorted] states_seen_in_chain [OF that]
    by auto
  have d: "remdups_adj (states_seen ops it) = [state it]" if "ENDED \<le> state it"
    using run_ops_done [OF that, of ops] remdups_adj_replicate [of "Suc (length ops)" "state it"]
    by simp
  show ?thesis using s c d by (simp add: changeState_valid changeState_state)
qed

theorem changeState_forward_only_witness:
  "state (new_AsyncIterator INIT :: (nat, nat) async_iterator) \<in> set state_chain
   \<and> set (requested_states [ChangeState OPEN False, Close, RunMicrotask, Destroy None None]) \<subseteq> set state_chain
   \<and> subseq (remdups_adj (states_seen [ChangeState OPEN False, Close, RunMicrotask, Destroy None None]
         (new_AsyncIterator INIT :: (nat, nat) async_iterator))) state_chain
   \<and> remdups_adj (states_seen [ChangeState OPEN False, Close, RunMicrotask, Destroy None None]
         (new_AsyncIterator INIT :: (nat, nat) async_iterator)) = [INIT, OPEN, CLOSED, ENDED]
   \<and> ENDED \<le> state (run_ops [ChangeState OPEN False, Close, RunMicrotask] (new_AsyncIterator INIT :: (nat, nat) async_iterator))
   \<and> remdups_adj (states_seen [Destroy None None, Close]
        (run_ops [ChangeState OPEN False, Close, RunMicrotask] (new_AsyncIterator INIT :: (nat, nat) async_iterator))) = [ENDED]"
proof -
  let ?it = "new_AsyncIterator INIT :: (nat, nat) async_iterator"
  let ?ops = "[ChangeState OPEN False, Close, RunMicrotask, Destroy None None]"
  have a: "state ?it \<in> set state_chain" by (simp add: new_AsyncIterator_def state_chain_def)
  have b: "set (requested_states ?ops) \<subseteq> set state_chain" by (simp add: state_chain_def)
  have e: "states_seen ?ops ?it = [INIT, OPEN, CLOSED, ENDED, ENDED]"
    by (simp add: new_AsyncIterator_def changeState_def close_def endAsync_def queueMicrotask_def
          run_microtask_def run_base_task_def end_it_def emit_def removeAllListeners_def
          destroy_def calls_back_def is_done_def state_defs)
  have f: "state (run_ops [ChangeState OPEN False, Close, RunMicrotask] ?it) = ENDED"
    by (simp add: new_AsyncIterator_def changeState_def close_def endAsync_def queueMicrotask_def
          run_microtask_def run_base_task_def end_it_def emit_def removeAllListeners_def
          destroy_def calls_back_def is_done_def state_defs)
  have g: "remdups_adj [INIT, OPEN, CLOSED, ENDED, ENDED] = [INIT, OPEN, CLOSED, ENDED]"
    by (simp add: state_defs)
  have h: "ENDED \<le> state (run_ops [ChangeState OPEN False, Close, RunMicrotask] ?it)"
    using f by simp
  show ?thesis
    using changeState_forward_only [of OPEN False ?it ?ops] a b
      changeState_forward_only [of OPEN False "run_ops [ChangeState OPEN False, Close, RunMicrotask] ?it" "[Destroy None None, Close]"] h
    unfolding e g f by blast
qed

lemma changeState_accounted:
  "end_accounted it \<Longrightarrow> end_accounted (snd (changeState n a it))"
  by (auto simp: end_accounted_def changeState_def count_end_def pending_end_def emit_def
        queueMicrotask_def Let_def)

lemma end_it_accounted: "end_accounted it \<Longrightarrow> end_accounted (end_it d it)"
proof -
  assume a: "end_accounted it"
  obtain v it1 where c: "changeState (if d then DESTROYED else ENDED) False it = (v, it1)"
    by (cases "changeState (if d then DESTROYED else ENDED) False it")
  have "end_accounted it1" using changeState_accounted [OF a, of "if d then DESTROYED else ENDED" False] c by simp
  then show ?thesis using c
    by (cases v) (auto simp: end_it_def end_accounted_def count_end_def pending_end_def removeAllListeners_def)
qed

lemma emit_error_accounted: "end_accounted it \<Longrightarrow> end_accounted (emit (Error e) it)"
  by (auto simp: end_accounted_def emit_def count_end_def pending_end_def)

lemma close_accounted: "end_accounted it \<Longrightarrow> end_accounted (close it)"
proof -
  assume a: "end_accounted it"
  obtain v it1 where c: "changeState CLOSED False it = (v, it1)"
    by (cases "changeState CLOSED False it")
  have "end_accounted it1" using changeState_accounted [OF a, of CLOSED False] c by simp
  then show ?thesis using c
    by (cases v) (auto simp: close_def endAsync_def queueMicrotask_def end_accounted_def count_end_def pending_end_def)
qed

lemma destroy_accounted:
  "end_accounted it \<Longrightarrow> destroy (calls_back error) cause it = Inr it1 \<Longrightarrow> end_accounted it1"
  by (auto simp: destroy_def destroy_callback_def calls_back_def emit_error_def Let_def
        intro!: end_it_accounted emit_error_accounted split: option.splits if_splits)

lemma on_outside_accounted: "end_accounted it \<Longrightarrow> end_accounted (on_outside w l it)"
  by (auto simp: on_outside_def Let_def emit_def end_accounted_def count_end_def pending_end_def
        split: if_splits)

lemma run_microtask_accounted: "end_accounted it \<Longrightarrow> end_accounted (run_microtask it)"
proof (cases "microtasks it")
  case Nil
  then show "end_accounted it \<Longrightarrow> ?thesis" by (simp add: run_microtask_def)
next
  case (Cons t ts)
  assume a: "end_accounted it"
  show ?thesis
  proof (cases t)
    case TEnd
    have "end_accounted (it\<lparr>microtasks := ts\<rparr>)"
      using a Cons TEnd by (simp add: end_accounted_def count_end_def pending_end_def)
    then show ?thesis using Cons TEnd
      by (simp add: run_microtask_def run_base_task_def end_it_accounted)
  qed (use a Cons in \<open>auto simp: run_microtask_def run_base_task_def end_accounted_def count_end_def
         pending_end_def emit_def split: if_splits\<close>)
qed

lemma step_op_accounted: "end_accounted it \<Longrightarrow> end_accounted (step_op x it)"
proof (cases x)
  case EndAsync
  assume "end_accounted it"
  then show ?thesis using EndAsync
    by (simp add: endAsync_def queueMicrotask_def end_accounted_def count_end_def pending_end_def)
next
  case (SetReadable r)
  assume "end_accounted it"
  then show ?thesis using SetReadable
    by (auto simp: set_readable_def queueMicrotask_def Let_def end_accounted_def count_end_def
          pending_end_def split: if_splits)
next
  case (Destroy cause error)
  assume "end_accounted it"
  then show ?thesis using Destroy destroy_accounted [of it error cause]
    by (cases "destroy (calls_back error) cause it") auto
qed (simp_all add: close_accounted end_it_accounted changeState_accounted
       run_microtask_accounted on_outside_accounted)

lemma run_ops_accounted: "end_accounted it \<Longrightarrow> end_accounted (run_ops ops it)"
  by (induction ops arbitrary: it) (auto simp: step_op_accounted)

lemma new_AsyncIterator_accounted: "s \<noteq> ENDED \<Longrightarrow> end_accounted (new_AsyncIterator s)"
  by (simp add: end_accounted_def new_AsyncIterator_def count_end_def pending_end_def)

lemma new_EmptyIterator_accounted: "end_accounted new_EmptyIterator"
  by (simp add: end_accounted_def new_AsyncIterator_def new_EmptyIterator_def count_end_def
       pending_end_def changeState_def queueMicrotask_def state_defs)

lemma destroy_callback_cases:
  "destroy_callback cause error it =
     (case (case cause of Some c \<Rightarrow> Some c | None \<Rightarrow> error) of
        None \<Rightarrow> Inr (end_it True it)
      | Some c \<Rightarrow> if events it ''error'' = [] then Inl c
                  else Inr (end_it True (emit (Error c) it)))"
  by (simp add: destroy_callback_def emit_error_def Let_def split: option.splits)

lemma end_it_destroys:
  "\<not> is_done it \<Longrightarrow>
     destroyed (end_it True it) \<and> emitted (end_it True it) = emitted it
     \<and> microtasks (end_it True it) = microtasks it"
  by (auto simp: end_it_def changeState_def removeAllListeners_def is_done_def destroyed_def
        Let_def state_defs)

lemma destroy_returns_destroyed:
  assumes "\<not> is_done it" and "destroy (calls_back error) cause it = Inr it1"
  shows "destroyed it1"
proof -
  have a: "\<not> is_done (emit (Error c) it)" for c using assms(1) by (simp add: is_done_def emit_def)
  show ?thesis
    using assms end_it_destroys [OF assms(1)] end_it_destroys [OF a]
    by (auto simp: destroy_def calls_back_def destroy_callback_cases split: option.splits if_splits)
qed

lemma destroy_returns_when:
  assumes "\<not> is_done it" and "(cause = None \<and> error = None) \<or> events it ''error'' \<noteq> []"
  shows "\<exists>it1. destroy (calls_back error) cause it = Inr it1"
  using assms
  by (auto simp: destroy_def calls_back_def destroy_callback_cases split: option.splits)

lemma destroy_throws_when:
  assumes "\<not> is_done it" and "events it ''error'' = []"
    and "cause = Some c \<or> cause = None \<and> error = Some c"
  shows "destroy (calls_back error) cause it = Inl c"
  using assms
  by (auto simp: destroy_def calls_back_def destroy_callback_cases split: option.splits)

lemma destroyed_no_end:
  assumes "end_accounted it" and "destroyed it"
  shows "End \<notin> set (emitted it) \<and> TEmitEnd \<notin> set (microtasks it)"
proof -
  have "count_end it = 0 \<and> pending_end it = 0"
    using assms by (auto simp: end_accounted_def destroyed_def state_defs)
  then show ?thesis by (auto simp: count_end_def pending_end_def filter_empty_conv)
qed

text \<open>
  C2: over the whole life of an iterator, \<^verbatim>\<open>end\<close> is emitted at most once. An emission,
  done or deferred, exists exactly when the state is \<open>ENDED\<close>: it comes from the one
  transition into that state. A destroyed iterator has emitted no \<^verbatim>\<open>end\<close> and has none
  waiting. \<^verbatim>\<open>destroy\<close> on an iterator that is not done, whenever it returns, has reached
  \<open>DESTROYED\<close> without \<^verbatim>\<open>end\<close>; it returns when there is no error to report or a
  listener for \<^verbatim>\<open>error\<close> is attached, and otherwise throws the error out of
  \<^verbatim>\<open>emit\<close>. The lifetimes are all lists of operations, on a new iterator or an
  \<^verbatim>\<open>EmptyIterator\<close>.
\<close>

theorem end_emitted_at_most_once:
  assumes "it0 = new_AsyncIterator s \<and> s < ENDED \<or> it0 = new_EmptyIterator"
  shows "count_end (run_ops ops it0) + pending_end (run_ops ops it0)
           = (if state (run_ops ops it0) = ENDED then 1 else 0)
         \<and> count_end (run_ops ops it0) \<le> 1
         \<and> (destroyed (run_ops ops it0) \<longrightarrow>
              End \<notin> set (emitted (run_ops ops it0)) \<and> TEmitEnd \<notin> set (microtasks (run_ops ops it0)))
         \<and> (\<not> is_done (run_ops ops it0) \<longrightarrow>
              (\<forall>it1. destroy (calls_back error) cause (run_ops ops it0) = Inr it1 \<longrightarrow>
                 destroyed it1 \<and> End \<notin> set (emitted it1) \<and> TEmitEnd \<notin> set (microtasks it1))
              \<and> ((cause = None \<and> error = None) \<or> events (run_ops ops it0) ''error'' \<noteq> [] \<longrightarrow>
                   (\<exists>it1. destroy (calls_back error) cause (run_ops ops it0) = Inr it1))
              \<and> (\<forall>c. events (run_ops ops it0) ''error'' = []
                      \<and> (cause = Some c \<or> cause = None \<and> error = Some c) \<longrightarrow>
                   destroy (calls_back error) cause (run_ops ops it0) = Inl c))"
proof -
  let ?it = "run_ops ops it0"
  have "end_accounted it0" using assms new_AsyncIterator_accounted [of s] new_EmptyIterator_accounted by auto
  then have a: "end_accounted ?it" by (rule run_ops_accounted)
  have c: "count_end ?it \<le> 1" using a by (auto simp: end_accounted_def split: if_splits)
  have d: "End \<notin> set (emitted ?it) \<and> TEmitEnd \<notin> set (microtasks ?it)" if "destroyed ?it"
    using a that by (rule destroyed_no_end)
  have e: "destroyed it1 \<and> End \<notin> set (emitted it1) \<and> TEmitEnd \<notin> set (microtasks it1)"
    if "\<not> is_done ?it" "destroy (calls_back error) cause ?it = Inr it1" for it1
  proof -
    have "destroyed it1" using that by (rule destroy_returns_destroyed)
    moreover have "end_accounted it1" using a that(2) by (rule destroy_accounted)
    ultimately show ?thesis using destroyed_no_end [of it1] by simp
  qed
  have f: "\<exists>it1. destroy (calls_back error) cause ?it = Inr it1"
    if "\<not> is_done ?it" "(cause = None \<and> error = None) \<or> events ?it ''error'' \<noteq> []"
    using that by (rule destroy_returns_when)
  have g: "destroy (calls_back error) cause ?it = Inl c"
    if "\<not> is_done ?it" "events ?it ''error'' = [] \<and> (cause = Some c \<or> cause = None \<and> error = Some c)" for c
    using that destroy_throws_when [of ?it cause c error] by simp
  have 1: "count_end ?it + pending_end ?it = (if state ?it = ENDED then 1 else 0)"
    using a by (simp add: end_accounted_def)
  have 3: "destroyed ?it \<longrightarrow> End \<notin> set (emitted ?it) \<and> TEmitEnd \<notin> set (microtasks ?it)"
    using d by simp
  have 4: "(\<forall>it1. destroy (calls_back error) cause ?it = Inr it1 \<longrightarrow>
                 destroyed it1 \<and> End \<notin> set (emitted it1) \<and> TEmitEnd \<notin> set (microtasks it1))"
    if "\<not> is_done ?it" using e [OF that] by simp
  have 5: "(cause = None \<and> error = None) \<or> events ?it ''error'' \<noteq> [] \<longrightarrow>
                   (\<exists>it1. destroy (calls_back error) cause ?it = Inr it1)"
    if "\<not> is_done ?it" using f [OF that] by simp
  have 6: "\<forall>c. events ?it ''error'' = []
                      \<and> (cause = Some c \<or> cause = None \<and> error = Some c) \<longrightarrow>
                   destroy (calls_back error) cause ?it = Inl c"
    if "\<not> is_done ?it" using g [OF that] by simp
  show ?thesis
    apply (rule conjI, rule 1)
    apply (rule conjI, rule c)
    apply (rule conjI, rule 3)
    apply (rule impI)
    apply (rule conjI, erule 4)
    apply (rule conjI, erule 5)
    apply (erule 6)
    done
qed

theorem end_emitted_at_most_once_witness:
  "OPEN < ENDED
   \<and> count_end (run_ops [Close, RunMicrotask, EndIt False, RunMicrotask] (new_AsyncIterator OPEN :: (nat, nat) async_iterator)) = 1
   \<and> \<not> is_done (run_ops [On OnError 1, Close] (new_AsyncIterator OPEN :: (nat, nat) async_iterator))
   \<and> events (run_ops [On OnError 1, Close] (new_AsyncIterator OPEN :: (nat, nat) async_iterator)) ''error'' \<noteq> []
   \<and> (\<exists>it1. destroy (calls_back None) (Some ''boom'')
               (run_ops [On OnError 1, Close] (new_AsyncIterator OPEN :: (nat, nat) async_iterator)) = Inr it1
            \<and> destroyed it1 \<and> End \<notin> set (emitted it1) \<and> TEmitEnd \<notin> set (microtasks it1))
   \<and> \<not> is_done (run_ops [Close] (new_AsyncIterator OPEN :: (nat, nat) async_iterator))
   \<and> events (run_ops [Close] (new_AsyncIterator OPEN :: (nat, nat) async_iterator)) ''error'' = []
   \<and> destroy (calls_back None) (Some ''boom'')
        (run_ops [Close] (new_AsyncIterator OPEN :: (nat, nat) async_iterator)) = Inl ''boom''"
proof -
  let ?it = "new_AsyncIterator OPEN :: (nat, nat) async_iterator"
  have a: "OPEN < ENDED" by (simp add: state_defs)
  have b: "state (run_ops [Close, RunMicrotask, EndIt False, RunMicrotask] ?it) = ENDED
           \<and> pending_end (run_ops [Close, RunMicrotask, EndIt False, RunMicrotask] ?it) = 0"
    by (simp add: new_AsyncIterator_def changeState_def close_def endAsync_def queueMicrotask_def
          run_microtask_def run_base_task_def end_it_def emit_def removeAllListeners_def
          pending_end_def state_defs)
  have c: "\<not> is_done (run_ops [On OnError 1, Close] ?it)"
    "events (run_ops [On OnError 1, Close] ?it) ''error'' \<noteq> []"
    by (simp_all add: new_AsyncIterator_def changeState_def close_def endAsync_def queueMicrotask_def
          on_outside_def emit_def is_done_def state_defs)
  have d: "\<not> is_done (run_ops [Close] ?it)" "events (run_ops [Close] ?it) ''error'' = []"
    by (simp_all add: new_AsyncIterator_def changeState_def close_def endAsync_def queueMicrotask_def
          is_done_def state_defs)
  have i: "?it = new_AsyncIterator OPEN \<and> OPEN < ENDED \<or> ?it = new_EmptyIterator"
    using a by simp
  note t1 = end_emitted_at_most_once [OF i, of "[Close, RunMicrotask, EndIt False, RunMicrotask]"]
  note t2 = end_emitted_at_most_once [OF i, where ops = "[On OnError 1, Close]" and error = None
              and cause = "Some ''boom''"]
  note t3 = end_emitted_at_most_once [OF i, where ops = "[Close]" and error = None
              and cause = "Some ''boom''"]
  have 1: "count_end (run_ops [Close, RunMicrotask, EndIt False, RunMicrotask] ?it) = 1"
    using t1 [THEN conjunct1] b by simp
  note u2 = t2 [THEN conjunct2, THEN conjunct2, THEN conjunct2, THEN mp, OF c(1)]
  obtain it1 where r: "destroy (calls_back None) (Some ''boom'') (run_ops [On OnError 1, Close] ?it) = Inr it1"
    using u2 [THEN conjunct2, THEN conjunct1] c(2) by blast
  have "destroyed it1 \<and> End \<notin> set (emitted it1) \<and> TEmitEnd \<notin> set (microtasks it1)"
    using u2 [THEN conjunct1, THEN spec, of it1] r by simp
  then have 2: "\<exists>it1. destroy (calls_back None) (Some ''boom'') (run_ops [On OnError 1, Close] ?it) = Inr it1
            \<and> destroyed it1 \<and> End \<notin> set (emitted it1) \<and> TEmitEnd \<notin> set (microtasks it1)"
    using r by blast
  note u3 = t3 [THEN conjunct2, THEN conjunct2, THEN conjunct2, THEN mp, OF d(1)]
  have 3: "destroy (calls_back None) (Some ''boom'') (run_ops [Close] ?it) = Inl ''boom''"
    using u3 [THEN conjunct2, THEN conjunct2, THEN spec, of "''boom''"] d(2) by simp
  show ?thesis
    apply (rule conjI, rule a)
    apply (rule conjI, rule 1)
    apply (rule conjI, rule c(1))
    apply (rule conjI, rule c(2))
    apply (rule conjI, rule 2)
    apply (rule conjI, rule d(1))
    apply (rule conjI, rule d(2))
    apply (rule 3)
    done
qed

lemma end_it_released: "state it < ENDED \<Longrightarrow> released (end_it d it)"
  by (auto simp: end_it_def changeState_def released_def removeAllListeners_def emit_def Let_def state_defs)

lemma destroy_step_released:
  assumes "\<not> is_done it" and "is_done (step_op (Destroy cause error) it)"
  shows "released (step_op (Destroy cause error) it)"
proof -
  have a: "state (emit (Error c) it) < ENDED" for c using assms(1) by (simp add: is_done_def emit_def)
  have b: "state it < ENDED" using assms(1) by (simp add: is_done_def)
  show ?thesis
    using assms end_it_released [OF a] end_it_released [OF b]
    by (auto simp: destroy_def calls_back_def destroy_callback_cases split: option.splits if_splits)
qed

lemma step_op_keeps_listener:
  assumes "is_done it" and "l \<in> set (events it n)"
  shows "is_done (step_op x it) \<and> l \<in> set (events (step_op x it) n)"
proof (cases x)
  case RunMicrotask
  show ?thesis
  proof (cases "microtasks it")
    case Nil
    then show ?thesis using assms RunMicrotask by (simp add: run_microtask_def)
  next
    case (Cons t ts)
    then show ?thesis using assms RunMicrotask
      by (cases t)
         (auto simp: run_microtask_def run_base_task_def emit_def end_it_def changeState_def
            is_done_def Let_def)
  qed
qed (use assms in \<open>auto simp: close_def changeState_def destroy_def end_it_def endAsync_def
       queueMicrotask_def set_readable_def on_outside_def emit_def is_done_def Let_def\<close>)

lemma run_ops_keeps_listener:
  "is_done it \<Longrightarrow> l \<in> set (events it n) \<Longrightarrow> l \<in> set (events (run_ops ops it) n)"
proof (induction ops arbitrary: it)
  case Nil
  then show ?case by simp
next
  case (Cons x xs)
  then show ?case using step_op_keeps_listener [of it l n x] by simp
qed

text \<open>
  C8, as the code has it: the listeners for \<^verbatim>\<open>readable\<close>, \<^verbatim>\<open>data\<close> and \<^verbatim>\<open>end\<close> are
  removed by \<^verbatim>\<open>_end\<close>, not by the change of state. A bare \<^verbatim>\<open>_changeState(ENDED)\<close>
  takes an iterator with listeners into \<open>ENDED\<close> and leaves them attached; and an
  \<^verbatim>\<open>EmptyIterator\<close>, which enters \<open>ENDED\<close> that way in its constructor, keeps a listener
  attached to it afterwards, also once it has emitted \<^verbatim>\<open>end\<close>.
\<close>

theorem bare_changeState_keeps_listeners:
  "\<not> is_done (on_outside OnEnd 1 (new_AsyncIterator OPEN :: (nat, nat) async_iterator))
   \<and> is_done (step_op (ChangeState ENDED False)
        (on_outside OnEnd 1 (new_AsyncIterator OPEN :: (nat, nat) async_iterator)))
   \<and> \<not> released (step_op (ChangeState ENDED False)
        (on_outside OnEnd 1 (new_AsyncIterator OPEN :: (nat, nat) async_iterator)))
   \<and> ended (run_ops [On OnEnd 1, RunMicrotask] (new_EmptyIterator :: (nat, nat) async_iterator))
   \<and> emitted (run_ops [On OnEnd 1, RunMicrotask] (new_EmptyIterator :: (nat, nat) async_iterator))
       = [NewListener ''end'', End]
   \<and> \<not> released (run_ops [On OnEnd 1, RunMicrotask] (new_EmptyIterator :: (nat, nat) async_iterator))"
  by (simp add: new_EmptyIterator_def new_AsyncIterator_def on_outside_def changeState_def
        emit_def queueMicrotask_def run_microtask_def run_base_task_def is_done_def ended_def
        released_def state_defs)

text \<open>
  C8, amended: every operation other than a bare \<^verbatim>\<open>_changeState\<close> that takes an iterator
  into \<open>ENDED\<close> or \<open>DESTROYED\<close> leaves it without listeners for \<^verbatim>\<open>readable\<close>,
  \<^verbatim>\<open>data\<close> and \<^verbatim>\<open>end\<close>, and so does every successful \<^verbatim>\<open>_end\<close>. \<^verbatim>\<open>_changeState\<close>
  itself leaves all listeners where they are. An \<^verbatim>\<open>EmptyIterator\<close> enters \<open>ENDED\<close> in its
  constructor, where it has no such listeners; a listener that an iterator has when it is
  done stays attached whatever happens afterwards.
\<close>

theorem listeners_released_on_entering_done:
  "(\<not> is_done it \<and> is_done (step_op x it) \<and> \<not> direct_change x \<longrightarrow> released (step_op x it))
   \<and> (fst (changeState (if d then DESTROYED else ENDED) False it) \<longrightarrow>
        is_done (end_it d it) \<and> released (end_it d it))
   \<and> events (snd (changeState n a it)) = events it
   \<and> is_done (new_EmptyIterator :: ('a, 'v) async_iterator)
   \<and> released (new_EmptyIterator :: ('a, 'v) async_iterator)
   \<and> (is_done it \<and> l \<in> set (events it name) \<longrightarrow> l \<in> set (events (run_ops ops it) name))"
proof -
  have a: "released (step_op x it)"
    if h: "\<not> is_done it" "is_done (step_op x it)" "\<not> direct_change x"
  proof (cases x)
    case Close
    then show ?thesis using h by (auto simp: is_done_def close_state changeState_state state_defs split: if_splits)
  next
    case (Destroy cause error)
    then show ?thesis using h destroy_step_released by blast
  next
    case (EndIt b)
    then show ?thesis using h by (auto simp: is_done_def intro!: end_it_released)
  next
    case EndAsync
    then show ?thesis using h by (simp add: endAsync_def queueMicrotask_def is_done_def)
  next
    case (ChangeState n b)
    then show ?thesis using h by simp
  next
    case (SetReadable r)
    then show ?thesis using h by (auto simp: set_readable_def Let_def queueMicrotask_def is_done_def split: if_splits)
  next
    case (On w k)
    then show ?thesis using h by (simp add: is_done_def on_outside_state)
  next
    case RunMicrotask
    show ?thesis
    proof (cases "microtasks it")
      case Nil
      then show ?thesis using h RunMicrotask by (simp add: run_microtask_def)
    next
      case (Cons t ts)
      show ?thesis
      proof (cases t)
        case TEnd
        then show ?thesis using h(1) RunMicrotask Cons
          by (auto simp: run_microtask_def run_base_task_def is_done_def intro!: end_it_released)
      qed (use h RunMicrotask Cons in \<open>auto simp: run_microtask_def run_base_task_def is_done_def emit_def\<close>)
    qed
  qed
  have b: "is_done (end_it d it) \<and> released (end_it d it)"
    if "fst (changeState (if d then DESTROYED else ENDED) False it)"
    using that end_it_released [of it d]
    by (auto simp: changeState_valid is_done_def end_it_state changeState_state state_defs)
  have c: "is_done (new_EmptyIterator :: ('a, 'v) async_iterator)
           \<and> released (new_EmptyIterator :: ('a, 'v) async_iterator)"
    by (simp add: new_EmptyIterator_def new_AsyncIterator_def changeState_def queueMicrotask_def
          is_done_def released_def state_defs)
  have e: "events (snd (changeState n a it)) = events it"
    by (simp add: changeState_def Let_def emit_def queueMicrotask_def)
  have f: "l \<in> set (events (run_ops ops it) name)" if "is_done it" "l \<in> set (events it name)"
    using that by (rule run_ops_keeps_listener)
  show ?thesis using a b c e f by blast
qed

theorem listeners_released_on_entering_done_witness:
  "\<not> is_done (run_ops [On OnEnd 1, On OnReadable 2] (new_AsyncIterator OPEN :: (nat, nat) async_iterator))
   \<and> is_done (step_op (Destroy None None)
        (run_ops [On OnEnd 1, On OnReadable 2] (new_AsyncIterator OPEN :: (nat, nat) async_iterator)))
   \<and> \<not> direct_change (Destroy None None)
   \<and> released (step_op (Destroy None None)
        (run_ops [On OnEnd 1, On OnReadable 2] (new_AsyncIterator OPEN :: (nat, nat) async_iterator)))
   \<and> fst (changeState (if False then DESTROYED else ENDED) False
        (run_ops [On OnEnd 1, On OnReadable 2] (new_AsyncIterator OPEN :: (nat, nat) async_iterator)))
   \<and> released (end_it False
        (run_ops [On OnEnd 1, On OnReadable 2] (new_AsyncIterator OPEN :: (nat, nat) async_iterator)))
   \<and> is_done (on_outside OnEnd 3 (new_EmptyIterator :: (nat, nat) async_iterator))
   \<and> External 3 \<in> set (events (on_outside OnEnd 3 (new_EmptyIterator :: (nat, nat) async_iterator)) ''end'')
   \<and> External 3 \<in> set (events (run_ops [RunMicrotask, Close, Destroy None None]
        (on_outside OnEnd 3 (new_EmptyIterator :: (nat, nat) async_iterator))) ''end'')"
proof -
  let ?it = "run_ops [On OnEnd 1, On OnReadable 2] (new_AsyncIterator OPEN :: (nat, nat) async_iterator)"
  let ?e = "on_outside OnEnd 3 (new_EmptyIterator :: (nat, nat) async_iterator)"
  have s: "state ?it = OPEN" by (simp add: on_outside_state new_AsyncIterator_def)
  have a: "\<not> is_done ?it" using s by (simp add: is_done_def state_defs)
  have b: "is_done (step_op (Destroy None None) ?it)"
    using s by (simp add: destroy_const_state is_done_def state_defs del: step_op.simps run_ops.simps)
  have c: "fst (changeState (if False then DESTROYED else ENDED) False ?it)"
    using s by (simp add: changeState_valid state_defs del: run_ops.simps)
  have d: "is_done ?e" "External 3 \<in> set (events ?e ''end'')"
    by (simp_all add: new_EmptyIterator_def new_AsyncIterator_def on_outside_def changeState_def
          emit_def queueMicrotask_def is_done_def state_defs)
  note t1 = listeners_released_on_entering_done [of ?it "Destroy None None" False]
  note t2 = listeners_released_on_entering_done [of ?e _ _ _ _ "External 3" "''end''"
              "[RunMicrotask, Close, Destroy None None]"]
  have nc: "\<not> direct_change (Destroy None None)" by simp
  have 1: "released (step_op (Destroy None None) ?it)" using t1 a b nc by blast
  have 2: "released (end_it False ?it)" using t1 c by blast
  have 3: "External 3 \<in> set (events (run_ops [RunMicrotask, Close, Destroy None None] ?e) ''end'')"
    using t2 d by blast
  show ?thesis using a b c d 1 2 3 nc by blast
qed




lemma getProperty_cb_pending:
  "\<not> has_property n it \<Longrightarrow>
     pending_callbacks m (getProperty_cb n cb it) =
       (if m = n then pending_callbacks n it @ [cb] else pending_callbacks m it)"
  by (auto simp: getProperty_cb_def has_property_def pending_callbacks_def Let_def update_conv'
        split: option.splits)

lemma getProperty_cb_has: "has_property m (getProperty_cb n cb it) = has_property m it"
  by (auto simp: getProperty_cb_def has_property_def Let_def queueMicrotask_def split: option.splits)

lemma register_pending:
  "\<not> has_property n it \<Longrightarrow>
     pending_callbacks m (fold (getProperty_cb n) cbs it) =
       (if m = n then pending_callbacks n it @ cbs else pending_callbacks m it)"
proof (induction cbs arbitrary: it)
  case Nil
  then show ?case by simp
next
  case (Cons cb cbs)
  have "\<not> has_property n (getProperty_cb n cb it)" using Cons.prems by (simp add: getProperty_cb_has)
  then show ?case using Cons.IH [of "getProperty_cb n cb it"] Cons.prems
    by (simp add: getProperty_cb_pending)
qed

lemma delete_empty_lookup: "AList.delete n xs = [] \<Longrightarrow> m \<noteq> n \<Longrightarrow> map_of xs m = None"
  using delete_conv [of n xs m] by simp

lemma setProperty_pending:
  assumes "pending_callbacks n it \<noteq> []"
  shows "pending_callbacks m (setProperty n v it) = (if m = n then [] else pending_callbacks m it)"
    and "microtasks (setProperty n v it) = microtasks it @ [TCallbacks (pending_callbacks n it) v]"
    and "called (setProperty n v it) = called it"
    and "getProperty n (setProperty n v it) = Some v"
  using assms
  by (auto simp: setProperty_def pending_callbacks_def Let_def queueMicrotask_def delete_conv'
        getProperty_def update_conv' delete_empty_lookup split: option.splits)

text \<open>
  C6: when callbacks are waiting for a property name and \<^verbatim>\<open>setProperty\<close> sets it, they
  are all detached and one deferred closure is queued, which calls each of them once with
  the value, in the order they were registered. Callbacks waiting for other names stay
  where they are. \<^verbatim>\<open>getProperty\<close> with a callback appends to the waiting callbacks of
  its name only.
\<close>

theorem setProperty_fires_pending_callbacks:
  assumes "pending_callbacks n it = cbs" and "cbs \<noteq> []"
  shows "pending_callbacks n (setProperty n v it) = []
         \<and> microtasks (setProperty n v it) = microtasks it @ [TCallbacks cbs v]
         \<and> called (setProperty n v it) = called it
         \<and> (microtasks it = [] \<longrightarrow>
              called (run_microtask (setProperty n v it)) = called it @ map (\<lambda>cb. (cb, Some v)) cbs
              \<and> microtasks (run_microtask (setProperty n v it)) = [])
         \<and> (m \<noteq> n \<longrightarrow> pending_callbacks m (setProperty n v it) = pending_callbacks m it)
         \<and> (\<not> has_property n it \<longrightarrow>
              pending_callbacks n (fold (getProperty_cb n) new it) = cbs @ new
              \<and> (m \<noteq> n \<longrightarrow> pending_callbacks m (fold (getProperty_cb n) new it) = pending_callbacks m it))"
proof -
  have a: "pending_callbacks n it \<noteq> []" using assms by simp
  note s = setProperty_pending [OF a]
  have r: "called (run_microtask (setProperty n v it)) = called it @ map (\<lambda>cb. (cb, Some v)) cbs
           \<and> microtasks (run_microtask (setProperty n v it)) = []" if "microtasks it = []"
    using that s(2) [of v] s(3) [of v] assms(1) by (simp add: run_microtask_def run_base_task_def)
  show ?thesis using s(1) [of n v] s(1) [of m v] s(2) [of v] s(3) [of v] r assms(1) register_pending [of n it _ new]
    by simp
qed


theorem setProperty_fires_pending_callbacks_witness:
  "pending_callbacks ''a'' three_waiting = [1, 2, 3]
   \<and> [1, 2, 3] \<noteq> ([] :: nat list)
   \<and> microtasks three_waiting = []
   \<and> ''b'' \<noteq> ''a''
   \<and> \<not> has_property ''a'' three_waiting
   \<and> called (run_microtask (setProperty ''a'' 42 three_waiting)) = [(1, Some 42), (2, Some 42), (3, Some 42)]
   \<and> pending_callbacks ''a'' (setProperty ''a'' 42 three_waiting) = []
   \<and> pending_callbacks ''b'' (setProperty ''a'' 42 three_waiting) = [7]
   \<and> pending_callbacks ''a'' (fold (getProperty_cb ''a'') [4, 5] three_waiting) = [1, 2, 3, 4, 5]"
proof -
  have a: "pending_callbacks ''a'' three_waiting = [1, 2, 3]"
    by (simp add: three_waiting_def getProperty_cb_def new_AsyncIterator_def pending_callbacks_def)
  have b: "pending_callbacks ''b'' three_waiting = [7]"
    by (simp add: three_waiting_def getProperty_cb_def new_AsyncIterator_def pending_callbacks_def)
  have c: "microtasks three_waiting = []" "called three_waiting = []"
    by (simp_all add: three_waiting_def getProperty_cb_def new_AsyncIterator_def)
  have d: "\<not> has_property ''a'' three_waiting"
    by (simp add: three_waiting_def getProperty_cb_def new_AsyncIterator_def has_property_def)
  show ?thesis
    using setProperty_fires_pending_callbacks [of "''a''" three_waiting "[1, 2, 3]" 42 "''b''" "[4, 5]"]
      a b c d
    by simp
qed

section \<open>Properties of BufferedIterator\<close>

text \<open>
  C5: on a buffered iterator that is done (\<open>ENDED\<close> or \<open>DESTROYED\<close>), \<^verbatim>\<open>_push\<close>
  changes nothing and raises nothing, and \<^verbatim>\<open>read\<close> returns \<^verbatim>\<open>null\<close>.
\<close>

theorem done_push_and_read_are_silent:
  "is_done it \<Longrightarrow> push x it = it \<and> buffered_read it = (None, it)"
  by (simp add: push_def buffered_read_def)

theorem done_push_and_read_are_silent_witness:
  "is_done ended_with_items \<and> push 7 ended_with_items = ended_with_items
   \<and> buffer (push 7 ended_with_items) = [5, 6]
   \<and> fst (buffered_read ended_with_items) = None"
proof -
  have a: "is_done ended_with_items" by (simp add: ended_with_items_def is_done_def)
  have b: "buffer ended_with_items = [5, 6]" by (simp add: ended_with_items_def)
  show ?thesis using done_push_and_read_are_silent [OF a, of 7] a b by simp
qed

lemma js_trunc_bounds:
  "\<bar>of_int (js_trunc q)\<bar> \<le> \<bar>q\<bar> \<and> \<bar>q\<bar> < \<bar>of_int (js_trunc q)\<bar> + 1 \<and> 0 \<le> q * of_int (js_trunc q)"
proof (cases "q < 0")
  case True
  define f where "f = \<lfloor>- q\<rfloor>"
  have t: "js_trunc q = - f" using True by (simp add: js_trunc_def f_def)
  have f0: "0 \<le> f" using True by (simp add: f_def)
  have f1: "of_int f \<le> - q" "- q < of_int f + 1" by (simp_all add: f_def) linarith
  have "0 \<le> (- q) * of_int f" using True f0 by (intro mult_nonneg_nonneg) auto
  then show ?thesis using True f0 f1 by (simp add: t)
next
  case False
  define f where "f = \<lfloor>q\<rfloor>"
  have t: "js_trunc q = f" using False by (simp add: js_trunc_def f_def)
  have f0: "0 \<le> f" using False by (simp add: f_def)
  have f1: "of_int f \<le> q" "q < of_int f + 1" by (simp_all add: f_def) linarith
  have "0 \<le> q * of_int f" using False f0 by (intro mult_nonneg_nonneg) auto
  then show ?thesis using False f0 f1 by (simp add: t)
qed

text \<open>
  C10: the setter of \<^verbatim>\<open>maxBufferSize\<close> keeps \<^verbatim>\<open>Infinity\<close>, turns every other
  non-finite value into 4, and truncates a finite value towards zero, with 1 as the least
  result. When the result differs from the stored size it is stored, and if the iterator
  is \<open>OPEN\<close>, \<^verbatim>\<open>_fillBuffer\<close> runs at once.
\<close>

theorem set_maxBufferSize_coerces:
  "coerce_maxBufferSize PosInfinity = \<infinity>
   \<and> coerce_maxBufferSize NegInfinity = 4
   \<and> coerce_maxBufferSize NaN = 4
   \<and> coerce_maxBufferSize (Finite q) = enat (nat (max (js_trunc q) 1))
   \<and> \<bar>of_int (js_trunc q)\<bar> \<le> \<bar>q\<bar> \<and> \<bar>q\<bar> < \<bar>of_int (js_trunc q)\<bar> + 1 \<and> 0 \<le> q * of_int (js_trunc q)
   \<and> 1 \<le> coerce_maxBufferSize v
   \<and> set_maxBufferSize read_hook flush_hook v it =
        (if coerce_maxBufferSize v = maxBufferSize it then Inr it
         else if state it = OPEN
           then fillBuffer read_hook flush_hook (it\<lparr>maxBufferSize := coerce_maxBufferSize v\<rparr>)
           else Inr (it\<lparr>maxBufferSize := coerce_maxBufferSize v\<rparr>))"
proof -
  have "1 \<le> coerce_maxBufferSize v"
    by (cases v) (auto simp: coerce_maxBufferSize_def one_enat_def numeral_eq_enat max_def)
  then show ?thesis using js_trunc_bounds [of q]
    by (auto simp: coerce_maxBufferSize_def set_maxBufferSize_def Let_def)
qed


theorem set_maxBufferSize_coerces_witness:
  "coerce_maxBufferSize (Finite (7 / 2)) = 3
   \<and> coerce_maxBufferSize (Finite (- 5 / 2)) = 1
   \<and> (case set_maxBufferSize push_one base_hook (Finite (7 / 2)) open_idle of
         Inl e \<Rightarrow> False
       | Inr it \<Rightarrow> maxBufferSize it = 3 \<and> buffer it = [1])
   \<and> set_maxBufferSize push_one base_hook (Finite (9 / 2)) open_idle = Inr open_idle"
proof -
  have a: "js_trunc (7 / 2) = 3" "js_trunc (- 5 / 2) = - 2" "js_trunc (9 / 2) = 4"
    by (simp_all add: js_trunc_def floor_eq_iff)
  have b: "maxBufferSize open_idle = 4" "state open_idle = OPEN"
    by (simp_all add: open_idle_def new_BufferedIterator_def coerce_maxBufferSize_def Let_def
          queueMicrotask_def async_iterator.defs buffered_iterator.defs numeral_eq_enat js_trunc_def)
  have c: "(case fillBuffer push_one base_hook (open_idle\<lparr>maxBufferSize := 3\<rparr>) of
         Inl e \<Rightarrow> False
       | Inr it \<Rightarrow> maxBufferSize it = 3 \<and> buffer it = [1])"
    by (simp add: open_idle_def new_BufferedIterator_def coerce_maxBufferSize_def Let_def
          queueMicrotask_def async_iterator.defs buffered_iterator.defs numeral_eq_enat
          js_trunc_def fillBuffer_def is_closed_def neededItems_def push_one_def push_def is_done_def
          set_readable_def fillBuffer_done_def fillBufferAsync_def new_AsyncIterator_def state_defs)
  show ?thesis
    using set_maxBufferSize_coerces [of "7 / 2" "Finite (7 / 2)" push_one base_hook open_idle]
      set_maxBufferSize_coerces [of "- 5 / 2" "Finite (- 5 / 2)" push_one base_hook open_idle]
      set_maxBufferSize_coerces [of "9 / 2" "Finite (9 / 2)" push_one base_hook open_idle] a b c
    by (simp add: numeral_eq_enat one_enat_def)
qed

section \<open>Properties of pipelines\<close>

lemma and_then_simps: "and_then (Inr s) f = f s" "and_then (Inl e) f = Inl e"
  by (simp_all add: and_then_def)

lemma and_then_cong: "r = r' \<Longrightarrow> and_then r f = and_then r' f"
  by simp

lemma with_destination_cong: "s = s' \<Longrightarrow> with_destination i s f = with_destination i s' f"
  by simp

lemma exec_numeral: "exec (numeral k) = body (exec (pred_numeral k))"
  by (simp add: numeral_eq_Suc)

lemma exec_Suc: "exec (Suc k) c s = body (exec k) c s"
  by simp

lemma run_numeral: "run (numeral k) s =
     (case queue s of
        [] \<Rightarrow> Inr s
      | (i, t) # ts \<Rightarrow> and_then (exec depth (RunTask i t) (s\<lparr>queue := ts\<rparr>)) (run (pred_numeral k)))"
  by (simp add: numeral_eq_Suc)

lemmas sys_defs = obj_def upd_def commit_def invoke_def invoke_r_def returning_def
  dispatch_def sys_emit_def add_listener_def on_def remove_last_def removeListener_def
  hasListeners_def addSingleListener_def waitForDataListener_def emitData_loop_def emitData_def
  base_end_def array_read_def integer_read_def reader_def upd_reader_def readAt_def endsAt_def
  register_def unregister_def cloned_read_def sys_read_def phase_done_def insert_items_def
  insert_end_def sys_begin_def sys_flush_def sys_init_def sys_completeClose_def sys_close_def
  sys_fillBuffer_done_def limit_step_def push_all_def read_loop_def readAndTransformSimple_def
  sys_read_hook_def sys_fillBuffer_def transform_end_def cloned_end_def sys_end_def
  sys_destroy_def history_listener_def sys_history_end_def with_destination_def run_listener_def
  run_task_def body_def empty_system_def new_object_def alloc_def new_ArrayIterator_def
  fromArray_def new_IntegerIterator_def no_options_def new_Buffered_def set_source_def
  inserter_of_def new_SimpleTransformIterator_def transform_def skip_def take_items_def
  range_op_def subscribe_def received_by_def js_isFinite_def js_Math_trunc_def js_sub_def
  js_Math_max_def js_trunc_def

lemmas base_defs = emit_def queueMicrotask_def removeAllListeners_def changeState_def is_closed_def
  ended_def destroyed_def is_done_def end_it_def endAsync_def close_def set_readable_def
  coerce_maxBufferSize_def fillBufferAsync_def flush_done_def neededItems_def buffered_read_def
  push_def init_done_def run_base_task_def state_defs

text \<open>
  C4: \<^verbatim>\<open>fromArray([1,2,3]).transform({offset:1, limit:1, prepend:[9], append:[8]})\<close>
  with a \<^verbatim>\<open>data\<close> and an \<^verbatim>\<open>end\<close> listener delivers 9, 2 and 8 in this order, then
  \<^verbatim>\<open>end\<close>, and nothing else; the run stops with no deferred work left and the
  transform in state \<open>ENDED\<close>.
\<close>

theorem scenario3_emits_9_2_8:
  "\<exists>s. scenario3 = Inr s
       \<and> received s = [(0, 1, Data (Finite 9)), (0, 1, Data (Finite 2)), (0, 1, Data (Finite 8)), (1, 1, End)]
       \<and> queue s = []
       \<and> cls (obj s 1) = SimpleTransformIteratorC
       \<and> state (obj s 1) = ENDED
       \<and> buffer (obj s 1) = []"
  unfolding scenario3_def pipeline3_def
  by (simp add: sys_defs base_defs and_then_simps exec_numeral run_numeral depth_def Let_def
        numeral_eq_enat cong: and_then_cong with_destination_cong)

section \<open>Properties of clones\<close>

lemma data_items_append: "data_items (es @ fs) = data_items es @ data_items fs"
  by (induction es rule: data_items.induct) auto

lemma clone_ok_frame:
  assumes "clone_ok S src h c"
    and "src_ended S src \<Longrightarrow> src_ended S src' \<and> ext = []"
  shows "clone_ok S src' (h @ ext) c"
proof (cases "src_ended S src")
  case True
  then show ?thesis using assms by (auto simp: clone_ok_def)
next
  case False
  then have "\<not> completed c" using assms(1) by (auto simp: clone_ok_def)
  then show ?thesis using assms(1) by (auto simp: clone_ok_def)
qed

lemma group_inv_frame:
  assumes "group_inv S g"
    and "src_ended S (g_source g) \<Longrightarrow> src_ended S src' \<and> ext = []"
  shows "group_inv S (g\<lparr>g_source := src', g_history := g_history g @ ext\<rparr>)"
  using assms clone_ok_frame [of S "g_source g" "g_history g" _ src' ext]
  by (auto simp: group_inv_def)

lemma group_inv_upd:
  assumes "group_inv S g"
    and "i < length (g_clones g) \<Longrightarrow> clone_ok S (g_source g) (g_history g) (g_clones g ! i)
          \<Longrightarrow> clone_ok S (g_source g) (g_history g) (f (g_clones g ! i))"
  shows "group_inv S (upd_clone i f g)"
  unfolding group_inv_def
proof (intro allI impI)
  fix j assume "j < length (g_clones (upd_clone i f g))"
  then have j: "j < length (g_clones g)" by (simp add: upd_clone_def)
  show "clone_ok S (g_source (upd_clone i f g)) (g_history (upd_clone i f g)) (g_clones (upd_clone i f g) ! j)"
  proof (cases "j = i")
    case True
    then show ?thesis using assms j by (simp add: upd_clone_def group_inv_def)
  next
    case False
    then show ?thesis using assms(1) j by (simp add: upd_clone_def group_inv_def)
  qed
qed

lemma upd_clone_fields [simp]:
  "g_source (upd_clone i f g) = g_source g"
  "g_history (upd_clone i f g) = g_history g"
  "g_registered (upd_clone i f g) = g_registered g"
  "length (g_clones (upd_clone i f g)) = length (g_clones g)"
  by (simp_all add: upd_clone_def)

lemma upd_clone_nth:
  "i < length (g_clones g) \<Longrightarrow> g_clones (upd_clone i f g) ! i = f (g_clones g ! i)"
  by (simp add: upd_clone_def)

lemma clone_ok_set_readable: "clone_ok S src h c \<Longrightarrow> clone_ok S src h (set_readable r c)"
  by (auto simp: clone_ok_def set_readable_def Let_def queueMicrotask_def completed_def
        is_closed_def destroyed_def)

lemma clone_ok_emit_other:
  "clone_ok S src h c \<Longrightarrow> (\<And>x. e \<noteq> Data x) \<Longrightarrow> clone_ok S src h (emit e c)"
  by (cases e) (auto simp: clone_ok_def emit_def data_items_append completed_def is_closed_def
        destroyed_def)

lemma clone_ok_close:
  "clone_ok S src h c \<Longrightarrow> src_ended S src \<Longrightarrow> readPosition c = length h \<Longrightarrow> clone_ok S src h (close c)"
  by (auto simp: clone_ok_def close_def changeState_def endAsync_def queueMicrotask_def Let_def
        completed_def is_closed_def destroyed_def state_defs)

lemma clone_ok_end_it:
  "clone_ok S src h c \<Longrightarrow> d \<or> is_closed c \<Longrightarrow> clone_ok S src h (end_it d c)"
  by (auto simp: clone_ok_def end_it_def changeState_def emit_def removeAllListeners_def Let_def
        data_items_append completed_def is_closed_def destroyed_def state_defs)


lemma history_readAt_inv:
  assumes "group_inv S g" and "pos \<le> length (g_history g)"
    and "history_readAt S pos g = (item, g1)"
  shows "group_inv S g1 \<and> g_clones g1 = g_clones g \<and> g_registered g1 = g_registered g
         \<and> (\<forall>x. item = Some x \<longrightarrow> pos < length (g_history g1) \<and> g_history g1 ! pos = x)
         \<and> (\<exists>ext. g_history g1 = g_history g @ ext)
         \<and> (src_ended S (g_source g) \<longrightarrow> g_source g1 = g_source g \<and> g_history g1 = g_history g)"
proof (cases "pos < length (g_history g)")
  case True
  then show ?thesis using assms by (auto simp: history_readAt_def)
next
  case False
  then have p: "pos = length (g_history g)" using assms(2) by simp
  show ?thesis
  proof (cases "src_ended S (g_source g)")
    case True
    then show ?thesis using assms False by (auto simp: history_readAt_def)
  next
    case ne: False
    obtain r s1 where rd: "src_read S (g_source g) = (r, s1)" by (cases "src_read S (g_source g)")
    show ?thesis
    proof (cases r)
      case None
      then have g1: "g1 = g\<lparr>g_source := s1, g_history := g_history g @ []\<rparr>" "item = None"
        using assms(3) rd ne p by (auto simp: history_readAt_def)
      have "group_inv S g1" unfolding g1 using assms(1) ne by (intro group_inv_frame) auto
      then show ?thesis using g1 ne by auto
    next
      case (Some x)
      then have g1: "g1 = g\<lparr>g_source := s1, g_history := g_history g @ [x]\<rparr>" "item = Some x"
        using assms(3) rd ne p by (auto simp: history_readAt_def)
      have "group_inv S g1" unfolding g1 using assms(1) ne by (intro group_inv_frame) auto
      then show ?thesis using g1 ne p by auto
    qed
  qed
qed

lemma clone_ok_advance:
  assumes "clone_ok S src h c" and "readPosition c < length h"
  shows "clone_ok S src h (emit (Data (h ! readPosition c)) (c\<lparr>readPosition := readPosition c + 1\<rparr>))"
  using assms
  by (auto simp: clone_ok_def emit_def data_items_append take_Suc_conv_app_nth completed_def
        is_closed_def destroyed_def)

lemma clone_ok_advance_close:
  assumes "clone_ok S src h c" and "readPosition c < length h"
    and "src_ended S src" and "length h = readPosition c + 1"
  shows "clone_ok S src h (emit (Data (h ! readPosition c)) (close (c\<lparr>readPosition := readPosition c + 1\<rparr>)))"
proof -
  have "take (readPosition c) h @ [h ! readPosition c] = take (Suc (readPosition c)) h"
    using assms(2) by (simp add: take_Suc_conv_app_nth)
  then have "take (readPosition c) h @ [h ! readPosition c] = h" using assms(4) by simp
  then show ?thesis using assms
  by (auto simp: clone_ok_def emit_def data_items_append take_Suc_conv_app_nth completed_def
        is_closed_def destroyed_def close_def changeState_def endAsync_def queueMicrotask_def
        Let_def state_defs)
qed

lemma set_readable_position [simp]: "readPosition (set_readable r c) = readPosition c"
  by (simp add: set_readable_def Let_def queueMicrotask_def)

lemma emitData_step_explicit:
  assumes "i < length (g_clones g)" and "\<not> is_done (g_clones g ! i)"
    and "history_readAt S (readPosition (g_clones g ! i)) g = (item, g1)"
    and "length (g_clones g1) = length (g_clones g)"
  shows "emitData_step S i g =
     (case item of
        Some x \<Rightarrow>
          upd_clone i (\<lambda>c. emit (Data x)
             ((if src_ended S (g_source g1) \<and> length (g_history g1) = readPosition c + 1
               then close else (\<lambda>c. c)) (c\<lparr>readPosition := readPosition c + 1\<rparr>))) g1
      | None \<Rightarrow>
          upd_clone i (\<lambda>c. (if src_ended S (g_source g1) \<and> length (g_history g1) = readPosition c
                            then close else (\<lambda>c. c)) (set_readable False c)) g1)"
  using assms
  by (cases item)
     (auto simp: emitData_step_def clone_read_def Let_def history_endsAt_def upd_clone_def)

lemma emitData_step_inv:
  assumes "group_inv S g" and "i < length (g_clones g)"
  shows "group_inv S (emitData_step S i g)"
proof (cases "is_done (g_clones g ! i)")
  case True
  then show ?thesis using assms by (simp add: emitData_step_def clone_read_def)
next
  case False
  let ?pos = "readPosition (g_clones g ! i)"
  obtain item g1 where r: "history_readAt S ?pos g = (item, g1)"
    by (cases "history_readAt S ?pos g")
  have pos: "?pos \<le> length (g_history g)"
    using assms by (auto simp: group_inv_def clone_ok_def)
  note ra = history_readAt_inv [OF assms(1) pos r]
  have len: "length (g_clones g1) = length (g_clones g)" using ra by simp
  have i1: "i < length (g_clones g1)" using assms(2) len by simp
  have c1: "g_clones g1 ! i = g_clones g ! i" using ra by simp
  have inv1: "group_inv S g1" using ra by simp
  have ok1: "clone_ok S (g_source g1) (g_history g1) (g_clones g1 ! i)"
    using inv1 i1 by (simp add: group_inv_def)
  note ex = emitData_step_explicit [OF assms(2) False r len]
  show ?thesis
  proof (cases item)
    case None
    have "group_inv S (upd_clone i (\<lambda>c. (if src_ended S (g_source g1) \<and> length (g_history g1) = readPosition c
                            then close else (\<lambda>c. c)) (set_readable False c)) g1)"
      using inv1
    proof (rule group_inv_upd)
      assume "clone_ok S (g_source g1) (g_history g1) (g_clones g1 ! i)"
      then have a: "clone_ok S (g_source g1) (g_history g1) (set_readable False (g_clones g1 ! i))"
        by (rule clone_ok_set_readable)
      show "clone_ok S (g_source g1) (g_history g1)
              ((if src_ended S (g_source g1) \<and> length (g_history g1) = readPosition (g_clones g1 ! i)
                then close else (\<lambda>c. c)) (set_readable False (g_clones g1 ! i)))"
        using a clone_ok_close [OF a] by auto
    qed
    then show ?thesis using ex None by simp
  next
    case (Some x)
    have lt: "?pos < length (g_history g1)" and x: "g_history g1 ! ?pos = x"
      using ra Some by auto
    have "group_inv S (upd_clone i (\<lambda>c. emit (Data x)
             ((if src_ended S (g_source g1) \<and> length (g_history g1) = readPosition c + 1
               then close else (\<lambda>c. c)) (c\<lparr>readPosition := readPosition c + 1\<rparr>))) g1)"
      using inv1
    proof (rule group_inv_upd)
      assume ok: "clone_ok S (g_source g1) (g_history g1) (g_clones g1 ! i)"
      show "clone_ok S (g_source g1) (g_history g1)
              (emit (Data x)
                ((if src_ended S (g_source g1) \<and> length (g_history g1) = readPosition (g_clones g1 ! i) + 1
                  then close else (\<lambda>c. c)) ((g_clones g1 ! i)\<lparr>readPosition := readPosition (g_clones g1 ! i) + 1\<rparr>)))"
        using clone_ok_advance [OF ok] clone_ok_advance_close [OF ok] lt x c1 by auto
    qed
    then show ?thesis using ex Some by simp
  qed
qed


lemma group_inv_registered [simp]: "group_inv S (g\<lparr>g_registered := r\<rparr>) = group_inv S g"
  by (simp add: group_inv_def)

lemma group_inv_source:
  assumes "group_inv S g" and "src_ended S (g_source g) \<Longrightarrow> src_ended S src'"
  shows "group_inv S (g\<lparr>g_source := src'\<rparr>)"
  using group_inv_frame [OF assms(1), of src' "[]"] assms(2) by simp

lemma new_clone_ok:
  "clone_ok S src h
     (buffered_iterator.extend (new_BufferedIterator (Finite 4) False) (cloned_iterator.fields 0))"
  by (simp add: clone_ok_def new_BufferedIterator_def new_AsyncIterator_def Let_def
        queueMicrotask_def completed_def is_closed_def async_iterator.defs buffered_iterator.defs
        cloned_iterator.defs state_defs)

lemma new_clone_position:
  "readPosition (buffered_iterator.extend (new_BufferedIterator (Finite 4) False)
     (cloned_iterator.fields 0) :: ('a, 'v) cloned_iterator) = 0"
  by (simp add: buffered_iterator.defs cloned_iterator.defs)

lemma group_inv_add:
  assumes "group_inv S g" and "clone_ok S (g_source g) (g_history g) c"
  shows "group_inv S (g\<lparr>g_clones := g_clones g @ [c]\<rparr>)"
  using assms by (auto simp: group_inv_def nth_append)

lemma close_position [simp]: "readPosition (close c) = readPosition c"
  by (auto simp: close_def changeState_def endAsync_def queueMicrotask_def emit_def Let_def
        state_defs)

lemma clone_ok_reset:
  "clone_ok S src h c \<Longrightarrow> readPosition c = 0 \<Longrightarrow> clone_ok S src h (c\<lparr>readPosition := 0, reading := False\<rparr>)"
  by (simp add: clone_ok_def completed_def is_closed_def destroyed_def)

lemma new_ClonedIterator_inv:
  assumes "group_inv S g"
  shows "group_inv S (new_ClonedIterator S g)"
proof -
  let ?i = "length (g_clones g)"
  let ?c = "buffered_iterator.extend (new_BufferedIterator (Finite 4) False) (cloned_iterator.fields 0) :: ('a, 'c) cloned_iterator"
  let ?g1 = "g\<lparr>g_clones := g_clones g @ [?c]\<rparr>"
  have inv1: "group_inv S ?g1" using assms new_clone_ok by (rule group_inv_add)
  have p1: "readPosition (g_clones ?g1 ! ?i) = 0" by (simp add: new_clone_position)
  have l1: "?i < length (g_clones ?g1)" by simp
  define g2 where "g2 = (if history_endsAt S 0 ?g1 then upd_clone ?i close ?g1
                else (case history_readAt S 0 (history_register ?i ?g1) of
                        (Some x, g3) \<Rightarrow> upd_clone ?i (set_readable True) g3
                      | (None, g3) \<Rightarrow> g3))"
  have g2: "group_inv S g2 \<and> ?i < length (g_clones g2) \<and> readPosition (g_clones g2 ! ?i) = 0"
  proof (cases "history_endsAt S 0 ?g1")
    case True
    have "group_inv S (upd_clone ?i close ?g1)"
      using inv1
    proof (rule group_inv_upd)
      assume "clone_ok S (g_source ?g1) (g_history ?g1) (g_clones ?g1 ! ?i)"
      then show "clone_ok S (g_source ?g1) (g_history ?g1) (close (g_clones ?g1 ! ?i))"
        using True p1 by (intro clone_ok_close) (auto simp: history_endsAt_def)
    qed
    then show ?thesis using True p1 by (simp add: g2_def upd_clone_def)
  next
    case False
    let ?gr = "history_register ?i ?g1"
    have invr: "group_inv S ?gr" using inv1 by (simp add: history_register_def split: option.splits)
    have cr: "g_clones ?gr = g_clones ?g1" "g_history ?gr = g_history ?g1"
      by (simp_all add: history_register_def split: option.splits)
    obtain item g3 where r: "history_readAt S 0 ?gr = (item, g3)"
      by (cases "history_readAt S 0 ?gr")
    have z: "0 \<le> length (g_history ?gr)" by simp
    note ra = history_readAt_inv [OF invr z r]
    have c3: "g_clones g3 = g_clones ?g1" using ra cr by simp
    have inv3: "group_inv S g3" using ra by simp
    show ?thesis
    proof (cases item)
      case None
      then show ?thesis using False r inv3 c3 p1 by (simp add: g2_def)
    next
      case (Some x)
      have "group_inv S (upd_clone ?i (set_readable True) g3)"
        using inv3 by (rule group_inv_upd) (rule clone_ok_set_readable)
      then show ?thesis using False r Some c3 p1 by (simp add: g2_def upd_clone_def)
    qed
  qed
  have "group_inv S (upd_clone ?i (\<lambda>c. c\<lparr>readPosition := 0, reading := False\<rparr>) g2)"
    using g2 by (intro group_inv_upd) (auto intro: clone_ok_reset)
  then show ?thesis by (simp add: new_ClonedIterator_def Let_def g2_def)
qed


lemma history_unregister_inv [simp]: "group_inv S (history_unregister c g) = group_inv S g"
  by (simp add: history_unregister_def split: option.splits)

lemma history_unregister_fields [simp]:
  "g_clones (history_unregister c g) = g_clones g"
  "g_source (history_unregister c g) = g_source g"
  "g_history (history_unregister c g) = g_history g"
  by (simp_all add: history_unregister_def split: option.splits)

lemma clone_ok_run_end:
  assumes "clone_ok S src h c" and "microtasks c = TEnd # ts"
  shows "clone_ok S src h (end_it False (c\<lparr>microtasks := ts\<rparr>))"
proof -
  have cl: "is_closed c" using assms by (simp add: clone_ok_def)
  have "clone_ok S src h (c\<lparr>microtasks := ts\<rparr>)"
    using assms by (auto simp: clone_ok_def completed_def is_closed_def destroyed_def)
  moreover have "is_closed (c\<lparr>microtasks := ts\<rparr>)" using cl by (simp add: is_closed_def)
  ultimately show ?thesis by (intro clone_ok_end_it) auto
qed

lemma clone_ok_drop_task:
  assumes "clone_ok S src h c" and "microtasks c = t # ts"
  shows "clone_ok S src h (c\<lparr>microtasks := ts\<rparr>)"
  using assms by (auto simp: clone_ok_def completed_def is_closed_def destroyed_def)

lemma upd_clone_twice: "upd_clone i f (upd_clone i k g) = upd_clone i (\<lambda>c. f (k c)) g"
  by (cases "i < length (g_clones g)") (simp_all add: upd_clone_def list_update_beyond)

lemma clone_task_inv:
  assumes "group_inv S g"
  shows "group_inv S (clone_task i g)"
proof (cases "microtasks (g_clones g ! i)")
  case Nil
  then show ?thesis using assms by (simp add: clone_task_def)
next
  case (Cons t ts)
  show ?thesis
  proof (cases t)
    case TEnd
    have "group_inv S (upd_clone i (\<lambda>c. end_it False (c\<lparr>microtasks := ts\<rparr>)) g)"
      using assms
      by (rule group_inv_upd) (use Cons TEnd in \<open>auto intro: clone_ok_run_end\<close>)
    moreover have "clone_task i g = upd_clone i (\<lambda>c. end_it False (c\<lparr>microtasks := ts\<rparr>)) (history_unregister i g)"
      using Cons TEnd by (cases "i < length (g_clones g)")
          (simp_all add: clone_task_def clone_end_def Let_def upd_clone_def
            history_unregister_def list_update_beyond split: option.splits)
    moreover have "group_inv S (upd_clone i (\<lambda>c. end_it False (c\<lparr>microtasks := ts\<rparr>)) (history_unregister i g))"
    proof (rule group_inv_upd)
      show "group_inv S (history_unregister i g)" using assms by simp
    next
      assume "clone_ok S (g_source (history_unregister i g)) (g_history (history_unregister i g))
               (g_clones (history_unregister i g) ! i)"
      then show "clone_ok S (g_source (history_unregister i g)) (g_history (history_unregister i g))
               (end_it False ((g_clones (history_unregister i g) ! i)\<lparr>microtasks := ts\<rparr>))"
        using Cons TEnd by (auto intro: clone_ok_run_end)
    qed
    ultimately show ?thesis by simp
  next
    case TEmitReadable
    have "group_inv S (upd_clone i (\<lambda>c. emit Readable (c\<lparr>microtasks := ts\<rparr>)) g)"
      using assms
      by (rule group_inv_upd) (use Cons in \<open>auto intro!: clone_ok_emit_other clone_ok_drop_task\<close>)
    then show ?thesis using Cons TEmitReadable
      by (simp add: clone_task_def Let_def upd_clone_twice)
  qed (use assms Cons in \<open>auto simp: clone_task_def Let_def intro!: group_inv_upd clone_ok_drop_task\<close>)
qed

lemma clone_ok_on_outside: "clone_ok S src h c \<Longrightarrow> clone_ok S src h (on_outside w l c)"
  by (auto simp: clone_ok_def on_outside_def emit_def Let_def data_items_append completed_def
        is_closed_def destroyed_def)

lemma clone_end_destroy_inv:
  assumes "group_inv S g"
  shows "group_inv S (clone_end True i g)"
proof -
  have "group_inv S (history_unregister i g)" using assms by simp
  then have "group_inv S (upd_clone i (end_it True) (history_unregister i g))"
    by (rule group_inv_upd) (auto intro: clone_ok_end_it)
  then show ?thesis by (simp add: clone_end_def)
qed

lemma clone_destroy_inv:
  assumes "group_inv S g"
  shows "group_inv S (clone_destroy cause i g)"
proof (cases "is_done (g_clones g ! i)")
  case True
  then show ?thesis using assms by (simp add: clone_destroy_def)
next
  case False
  let ?g1 = "upd_clone i (\<lambda>c. c\<lparr>buffer := []\<rparr>) g"
  have b: "clone_ok S src h (c\<lparr>buffer := []\<rparr>)" if "clone_ok S src h c" for src h and c :: "('a, 'c) cloned_iterator"
    using that by (simp add: clone_ok_def completed_def is_closed_def destroyed_def)
  have i1: "group_inv S ?g1"
    using assms by (rule group_inv_upd) (auto intro!: b)
  show ?thesis
  proof (cases cause)
    case None
    then show ?thesis using False clone_end_destroy_inv [OF i1]
      by (simp add: clone_destroy_def Let_def)
  next
    case (Some e)
    show ?thesis
    proof (cases "events (g_clones ?g1 ! i) ''error'' = []")
      case True
      then show ?thesis using False Some i1
        by (simp add: clone_destroy_def Let_def emit_error_def)
    next
      case ne: False
      have "group_inv S (upd_clone i (\<lambda>c. emit (Error e) (g_clones ?g1 ! i)) ?g1)"
        using i1 by (rule group_inv_upd) (auto intro!: clone_ok_emit_other)
      then have "group_inv S (clone_end True i (upd_clone i (\<lambda>c. emit (Error e) (g_clones ?g1 ! i)) ?g1))"
        by (rule clone_end_destroy_inv)
      then show ?thesis using False Some ne
        by (simp add: clone_destroy_def Let_def emit_error_def)
    qed
  qed
qed


lemma history_end_inv:
  assumes "group_inv S g" and "src_ended S (g_source g)"
  shows "group_inv S (history_end cs g) \<and> g_history (history_end cs g) = g_history g"
proof -
  let ?f = "\<lambda>c g1. if readPosition (g_clones g1 ! c) = length (g_history g1)
                    then upd_clone c close g1 else g1"
  have "group_inv S (fold ?f cs g) \<and> g_source (fold ?f cs g) = g_source g
        \<and> g_history (fold ?f cs g) = g_history g"
    using assms
  proof (induction cs arbitrary: g)
    case Nil
    then show ?case by simp
  next
    case (Cons c cs)
    have "group_inv S (?f c g)"
    proof (cases "readPosition (g_clones g ! c) = length (g_history g)")
      case True
      have "group_inv S (upd_clone c close g)"
        using Cons.prems(1)
        by (rule group_inv_upd) (use True Cons.prems(2) in \<open>auto intro: clone_ok_close\<close>)
      then show ?thesis using True by simp
    next
      case False
      then show ?thesis using Cons.prems(1) by simp
    qed
    moreover have "g_source (?f c g) = g_source g" "g_history (?f c g) = g_history g" by auto
    ultimately show ?case using Cons.IH [of "?f c g"] Cons.prems(2) by simp
  qed
  then show ?thesis by (simp add: history_end_def)
qed

lemma history_setReadable_inv:
  "group_inv S g \<Longrightarrow> group_inv S (history_setReadable cs g) \<and> g_history (history_setReadable cs g) = g_history g"
  unfolding history_setReadable_def
proof (induction cs arbitrary: g)
  case Nil
  then show ?case by simp
next
  case (Cons c cs)
  have "group_inv S (upd_clone c (set_readable True) g)"
    using Cons.prems by (rule group_inv_upd) (rule clone_ok_set_readable)
  then show ?case using Cons.IH [of "upd_clone c (set_readable True) g"] by simp
qed

lemma group_step_inv:
  assumes "group_inv S g" and "keeps_ended S x"
  shows "group_inv S (group_step S x g)"
proof (cases x)
  case NewClone
  then show ?thesis using assms(1) by (simp add: new_ClonedIterator_inv)
next
  case (EmitDataStep i)
  then show ?thesis using assms(1) by (simp add: emitData_step_inv)
next
  case (RunCloneTask i)
  then show ?thesis using assms(1) by (simp add: clone_task_inv)
next
  case (DestroyClone i cause)
  then show ?thesis using assms(1) by (simp add: clone_destroy_inv)
next
  case (CloneOn i w l)
  have "group_inv S (upd_clone i (on_outside w l) g)"
    using assms(1) by (rule group_inv_upd) (rule clone_ok_on_outside)
  then show ?thesis using CloneOn assms(1) by simp
next
  case (SourceChanges f)
  let ?g1 = "g\<lparr>g_source := f (g_source g)\<rparr>"
  have inv1: "group_inv S ?g1"
    using assms(1) by (rule group_inv_source) (use assms(2) SourceChanges in auto)
  show ?thesis
  proof (cases "src_ended S (g_source ?g1) \<and> \<not> src_ended S (g_source g)")
    case True
    then show ?thesis using SourceChanges inv1 history_end_inv [OF inv1]
      by (auto simp: Let_def split: option.splits)
  next
    case False
    then show ?thesis using SourceChanges inv1 by (auto simp: Let_def)
  qed
next
  case SourceReadable
  then show ?thesis using assms(1) history_setReadable_inv [OF assms(1)]
    by (auto split: option.splits)
qed

lemma group_run_inv:
  "group_inv S g \<Longrightarrow> list_all (keeps_ended S) ops \<Longrightarrow> group_inv S (group_run S ops g)"
  by (induction ops arbitrary: g) (auto simp: group_step_inv)

lemma new_HistoryReader_inv: "group_inv S (new_HistoryReader S src)"
  by (simp add: group_inv_def new_HistoryReader_def)

lemma history_readAt_prefix:
  "history_readAt S pos g = (item, g1) \<Longrightarrow> prefix (g_history g) (g_history g1) \<and> length (g_clones g1) = length (g_clones g)"
  by (auto simp: history_readAt_def split: if_splits prod.splits option.splits)

lemma clone_read_prefix:
  "clone_read S i g = (item, g1) \<Longrightarrow> prefix (g_history g) (g_history g1)"
  by (auto simp: clone_read_def Let_def split: if_splits prod.splits option.splits
        dest!: history_readAt_prefix)

lemma fold_upd_history:
  "g_history (fold (\<lambda>c g1. if P c g1 then upd_clone c (f c) g1 else g1) cs g) = g_history g"
  by (induction cs arbitrary: g) auto

lemma group_step_prefix: "prefix (g_history g) (g_history (group_step S x g))"
proof (cases x)
  case NewClone
  show ?thesis
  proof (cases "history_readAt S 0 (history_register (length (g_clones g))
                  (g\<lparr>g_clones := g_clones g @ [buffered_iterator.extend (new_BufferedIterator (Finite 4) False) (cloned_iterator.fields 0)]\<rparr>))")
    case (Pair item g3)
    have "g_history (history_register (length (g_clones g))
                  (g\<lparr>g_clones := g_clones g @ [buffered_iterator.extend (new_BufferedIterator (Finite 4) False) (cloned_iterator.fields 0)]\<rparr>)) = g_history g"
      by (simp add: history_register_def split: option.splits)
    then have "prefix (g_history g) (g_history g3)" using history_readAt_prefix [OF Pair] by simp
    then show ?thesis using NewClone Pair
      by (auto simp: new_ClonedIterator_def Let_def split: option.splits)
  qed
next
  case (EmitDataStep i)
  then show ?thesis
    by (cases "clone_read S i g")
       (auto simp: emitData_step_def split: option.splits dest: clone_read_prefix)
next
  case (RunCloneTask i)
  then show ?thesis
    by (auto simp: clone_task_def clone_end_def Let_def split: list.splits task.splits)
next
  case (DestroyClone i cause)
  then show ?thesis
    by (auto simp: clone_destroy_def clone_end_def Let_def split: option.splits sum.splits)
next
  case (CloneOn i w l)
  then show ?thesis by simp
next
  case (SourceChanges f)
  then show ?thesis
    by (auto simp: Let_def history_end_def fold_upd_history split: option.splits)
next
  case SourceReadable
  then show ?thesis
    using fold_upd_history [of "\<lambda>c g. True" "\<lambda>c. set_readable True" _ g]
    by (auto simp: history_setReadable_def split: option.splits)
qed

lemma group_run_prefix: "prefix (g_history g) (g_history (group_run S ops g))"
proof (induction ops arbitrary: g)
  case Nil
  then show ?case by simp
next
  case (Cons x xs)
  show ?case using group_step_prefix [of g S x] Cons [of "group_step S x g"]
    by (auto intro: prefix_order.trans)
qed


lemma group_run_append: "group_run S (xs @ ys) g = group_run S ys (group_run S xs g)"
  by (induction xs arbitrary: g) auto

lemma new_ClonedIterator_position:
  "length (g_clones (new_ClonedIterator S g)) = length (g_clones g) + 1
   \<and> readPosition (g_clones (new_ClonedIterator S g) ! length (g_clones g)) = 0"
proof -
  obtain item g3 where r: "history_readAt S 0 (history_register (length (g_clones g))
      (g\<lparr>g_clones := g_clones g @ [buffered_iterator.extend (new_BufferedIterator (Finite 4) False) (cloned_iterator.fields 0)]\<rparr>)) = (item, g3)"
    by (cases "history_readAt S 0 (history_register (length (g_clones g))
      (g\<lparr>g_clones := g_clones g @ [buffered_iterator.extend (new_BufferedIterator (Finite 4) False) (cloned_iterator.fields 0)]\<rparr>))")
  have "length (g_clones g3) = length (g_clones g) + 1"
    using history_readAt_prefix [OF r] by (simp add: history_register_def split: option.splits)
  then show ?thesis using r
    by (auto simp: new_ClonedIterator_def Let_def upd_clone_def split: option.splits)
qed

text \<open>
  C3: take a source whose state \<open>ENDED\<close> is final, any operations on it and its clones,
  then one more \<^verbatim>\<open>clone()\<close>, then any further operations. Every clone has emitted
  exactly the items of the shared history before its position; a clone that was read to
  its end has emitted the whole history, so any two such clones have emitted the same
  items in the same order. The clone made late starts at position 0 with nothing emitted,
  and what was in the history when it was made stays at the front of the history.
\<close>

theorem clones_emit_the_same_items:
  assumes "ended_for_good S (ops1 @ ops2)"
  shows "let gA = group_run S ops1 (new_HistoryReader S src :: ('a, 's, 'v) clone_group);
             k = length (g_clones gA);
             gN = group_step S NewClone gA;
             gB = group_run S ops2 gN
         in (\<forall>i < length (g_clones gB). \<forall>j < length (g_clones gB).
               completed (g_clones gB ! i) \<and> completed (g_clones gB ! j) \<longrightarrow>
                 data_items (emitted (g_clones gB ! i)) = data_items (emitted (g_clones gB ! j)))
            \<and> (\<forall>i < length (g_clones gB).
                  data_items (emitted (g_clones gB ! i)) = take (readPosition (g_clones gB ! i)) (g_history gB)
                  \<and> (completed (g_clones gB ! i) \<longrightarrow> data_items (emitted (g_clones gB ! i)) = g_history gB))
            \<and> length (g_clones gN) = k + 1
            \<and> readPosition (g_clones gN ! k) = 0
            \<and> data_items (emitted (g_clones gN ! k)) = []
            \<and> prefix (g_history gA) (g_history gB)"
proof -
  define gA where "gA = group_run S ops1 (new_HistoryReader S src :: ('a, 's, 'v) clone_group)"
  define gN where "gN = group_step S NewClone gA"
  define gB where "gB = group_run S ops2 gN"
  have k1: "list_all (keeps_ended S) ops1" and k2: "list_all (keeps_ended S) ops2"
    using assms by (simp_all add: ended_for_good_def)
  have iA: "group_inv S gA" unfolding gA_def using new_HistoryReader_inv k1 by (rule group_run_inv)
  have iN: "group_inv S gN" unfolding gN_def using iA by (rule group_step_inv) simp
  have iB: "group_inv S gB" unfolding gB_def using iN k2 by (rule group_run_inv)
  have all: "data_items (emitted (g_clones gB ! i)) = take (readPosition (g_clones gB ! i)) (g_history gB)
             \<and> (completed (g_clones gB ! i) \<longrightarrow> data_items (emitted (g_clones gB ! i)) = g_history gB)"
    if "i < length (g_clones gB)" for i
    using iB that by (auto simp: group_inv_def clone_ok_def)
  have pos: "length (g_clones gN) = length (g_clones gA) + 1 \<and> readPosition (g_clones gN ! length (g_clones gA)) = 0"
    unfolding gN_def using new_ClonedIterator_position [of S gA] by simp
  have same: "data_items (emitted (g_clones gB ! i)) = data_items (emitted (g_clones gB ! j))"
    if "i < length (g_clones gB)" "j < length (g_clones gB)"
       "completed (g_clones gB ! i) \<and> completed (g_clones gB ! j)" for i j
    using all [OF that(1)] all [OF that(2)] that(3) by metis
  have fresh: "data_items (emitted (g_clones gN ! length (g_clones gA))) = []"
    using iN pos by (auto simp: group_inv_def clone_ok_def)
  have pre: "prefix (g_history gA) (g_history gB)"
    unfolding gB_def gN_def
    using group_step_prefix [of gA S NewClone] group_run_prefix [of "group_step S NewClone gA" S ops2]
    by (auto intro: prefix_order.trans)
  have main:
    "(\<forall>i < length (g_clones gB). \<forall>j < length (g_clones gB).
               completed (g_clones gB ! i) \<and> completed (g_clones gB ! j) \<longrightarrow>
                 data_items (emitted (g_clones gB ! i)) = data_items (emitted (g_clones gB ! j)))
            \<and> (\<forall>i < length (g_clones gB).
                  data_items (emitted (g_clones gB ! i)) = take (readPosition (g_clones gB ! i)) (g_history gB)
                  \<and> (completed (g_clones gB ! i) \<longrightarrow> data_items (emitted (g_clones gB ! i)) = g_history gB))
            \<and> length (g_clones gN) = length (g_clones gA) + 1
            \<and> readPosition (g_clones gN ! length (g_clones gA)) = 0
            \<and> data_items (emitted (g_clones gN ! length (g_clones gA))) = []
            \<and> prefix (g_history gA) (g_history gB)"
    using same all pos fresh pre by blast
  show ?thesis unfolding Let_def using main [unfolded gB_def gN_def gA_def] .
qed

lemma two_clones_value:
  "map (\<lambda>c. (state c, readPosition c, data_items (emitted c))) (g_clones two_clones)
     = [(CLOSED, 3, [1, 2, 3]), (CLOSED, 3, [1, 2, 3])]
   \<and> g_history two_clones = [1, 2, 3]"
  by (simp add: two_clones_def list_source_def new_HistoryReader_def new_ClonedIterator_def
        history_endsAt_def history_register_def history_readAt_def upd_clone_def
        emitData_step_def clone_read_def history_end_def new_BufferedIterator_def
        new_AsyncIterator_def coerce_maxBufferSize_def js_trunc_def queueMicrotask_def
        set_readable_def is_done_def close_def changeState_def endAsync_def emit_def Let_def
        buffered_iterator.defs cloned_iterator.defs async_iterator.defs numeral_eq_enat state_defs)


theorem clones_emit_the_same_items_witness:
  "ended_for_good list_source
     ([NewClone, EmitDataStep 0, EmitDataStep 0]
      @ [EmitDataStep 0, EmitDataStep 1, SourceChanges (\<lambda>(xs, e). (xs, True)),
         EmitDataStep 1, EmitDataStep 1, EmitDataStep 1])
   \<and> length (g_clones two_clones) = 2
   \<and> completed (g_clones two_clones ! 0)
   \<and> completed (g_clones two_clones ! 1)
   \<and> data_items (emitted (g_clones two_clones ! 0)) = [1, 2, 3]
   \<and> data_items (emitted (g_clones two_clones ! 1)) = data_items (emitted (g_clones two_clones ! 0))"
proof -
  let ?ops1 = "[NewClone, EmitDataStep 0, EmitDataStep 0] :: (nat list \<times> bool) group_op list"
  let ?ops2 = "[EmitDataStep 0, EmitDataStep 1, SourceChanges (\<lambda>(xs, e). (xs, True)),
         EmitDataStep 1, EmitDataStep 1, EmitDataStep 1] :: (nat list \<times> bool) group_op list"
  have a: "ended_for_good list_source (?ops1 @ ?ops2)"
    by (auto simp: ended_for_good_def list_source_def split: list.splits)
  have v: "g_clones two_clones = [g_clones two_clones ! 0, g_clones two_clones ! 1]
           \<and> state (g_clones two_clones ! 0) = CLOSED \<and> state (g_clones two_clones ! 1) = CLOSED
           \<and> data_items (emitted (g_clones two_clones ! 0)) = [1, 2, 3]"
    using two_clones_value by (cases "g_clones two_clones"; cases "tl (g_clones two_clones)") auto
  then have l: "length (g_clones two_clones) = 2" by (metis length_Cons list.size(3) numeral_2_eq_2)
  have c: "completed (g_clones two_clones ! 0)" "completed (g_clones two_clones ! 1)"
    using v by (simp_all add: completed_def is_closed_def destroyed_def state_defs)
  have "data_items (emitted (g_clones two_clones ! 1)) = data_items (emitted (g_clones two_clones ! 0))"
    using clones_emit_the_same_items [OF a, of "([1, 2, 3], False)", where ?'v = unit] l c
    unfolding Let_def two_clones_def [symmetric]
    by auto
  then show ?thesis using a l c v by simp
qed

end
